theory Spec2Isabelle
  imports Main "HOL-Library.Word" "HOL-Library.AList" "HOL-Library.Extended_Nat"
begin

section \<open>Machine types and outcomes\<close>

text \<open>
  \<open>frame_id_t\<close> and \<open>page_id_t\<close> are \<open>int32_t\<close> (a 32-bit word read with \<open>sint\<close>),
  \<open>size_t\<close> is a 64-bit unsigned word. \<open>static_cast<size_t>(frame_id)\<close> sign-extends, which
  is \<open>scast\<close>.
\<close>

type_synonym frame_id_t = "32 word"
type_synonym page_id_t = "32 word"
type_synonym size_t = "64 word"

text \<open>
  What a call can end with besides returning: the exceptions the source throws
  (\<open>std::out_of_range\<close>, \<open>std::logic_error\<close>, \<open>NotImplementedException\<close>) and the
  undefined behaviour it can run into (\<open>front()\<close> or \<open>pop_front()\<close> of an empty deque,
  an index outside \<open>pages_\<close>, a call through a null \<open>Page *\<close>). The object outlives an
  exception, so every operation returns the outcome together with the state it leaves.
\<close>

datatype error =
    OutOfRange
  | LogicError
  | NotImplementedException
  | EmptyDeque
  | FrameOutOfBounds
  | NullDereference

section \<open>LRU-K replacer (lru\_k\_replacer.cpp)\<close>

text \<open>
  Modelled from the spec: the header lru\_k\_replacer.h, which declares \<open>LRUKNode\<close> and the
  members of the replacer, is not among the sources. A node is the history of recorded
  timestamps (oldest first) with the \<open>is_evictable\<close> flag, as the source uses them; a new
  node has an empty history and is not evictable; a new replacer has no nodes, timestamp 0
  and size 0.
\<close>

record LRUKNode =
  history :: "size_t list"
  is_evictable :: bool

text \<open>
  \<open>node_store_\<close> is an unordered map; it is kept as an association list whose order
  stands for the (unspecified) iteration order of the hash table. Insertion of a new key
  appends, \<open>erase\<close> filters the key out. No theorem below depends on the order.
\<close>

record lru_k_replacer =
  node_store :: "(frame_id_t \<times> LRUKNode) list"
  current_timestamp :: size_t
  curr_size :: size_t
  replacer_size :: size_t
  lru_k :: size_t

definition default_node :: LRUKNode where
  "default_node = \<lparr>history = [], is_evictable = False\<rparr>"

definition LRUKReplacer :: "size_t \<Rightarrow> size_t \<Rightarrow> lru_k_replacer" where
  "LRUKReplacer num_frames k =
     \<lparr>node_store = [], current_timestamp = 0, curr_size = 0,
      replacer_size = num_frames, lru_k = k\<rparr>"

subsection \<open>Evict\<close>

type_synonym evict_entry = "frame_id_t \<times> size_t \<times> size_t"

text \<open>The loop of lines 23 to 31: one tuple per evictable node, in iteration order.\<close>

fun evict_candidates :: "lru_k_replacer \<Rightarrow> (frame_id_t \<times> LRUKNode) list \<Rightarrow> error + evict_entry list" where
  "evict_candidates s [] = Inr []"
| "evict_candidates s ((fid, node) # rest) =
     (if is_evictable node then
        (case history node of
           [] \<Rightarrow> Inl EmptyDeque
         | t # _ \<Rightarrow>
             (case evict_candidates s rest of
                Inl e \<Rightarrow> Inl e
              | Inr l \<Rightarrow>
                  Inr ((if length (history node) < unat (lru_k s)
                        then (fid, - 1, t)
                        else (fid, current_timestamp s - t, t)) # l)))
      else evict_candidates s rest)"

text \<open>The comparator of lines 35 to 40.\<close>

definition evict_less :: "evict_entry \<Rightarrow> evict_entry \<Rightarrow> bool" where
  "evict_less lhs rhs =
     (if fst (snd lhs) = fst (snd rhs) then snd (snd lhs) < snd (snd rhs)
      else fst (snd lhs) > fst (snd rhs))"

text \<open>
  \<open>std::sort\<close> with a comparator, as an insertion sort. \<open>std::sort\<close> leaves the order of
  equivalent elements open; the sort here keeps them in iteration order.
\<close>

fun insert_by :: "('a \<Rightarrow> 'a \<Rightarrow> bool) \<Rightarrow> 'a \<Rightarrow> 'a list \<Rightarrow> 'a list" where
  "insert_by lt x [] = [x]"
| "insert_by lt x (y # ys) = (if lt y x then y # insert_by lt x ys else x # y # ys)"

definition sort_by :: "('a \<Rightarrow> 'a \<Rightarrow> bool) \<Rightarrow> 'a list \<Rightarrow> 'a list" where
  "sort_by lt xs = foldr (insert_by lt) xs []"

text \<open>
  Lines 42 to 46: the node is cleared, marked non-evictable and erased.
\<close>

definition erase_node :: "frame_id_t \<Rightarrow> (frame_id_t \<times> LRUKNode) list \<Rightarrow> (frame_id_t \<times> LRUKNode) list" where
  "erase_node fid store =
     AList.delete fid
       (case map_of store fid of
          None \<Rightarrow> store @ [(fid, default_node)]
        | Some node \<Rightarrow> AList.update fid (node\<lparr>history := [], is_evictable := False\<rparr>) store)"

text \<open>
  \<open>Evict\<close> returns \<open>None\<close> for \<open>false\<close> (the out-parameter is left alone) and
  \<open>Some frame_id\<close> for \<open>true\<close>.
\<close>

definition Evict :: "lru_k_replacer \<Rightarrow> (error + frame_id_t option) \<times> lru_k_replacer" where
  "Evict s =
     (case evict_candidates s (node_store s) of
        Inl e \<Rightarrow> (Inl e, s)
      | Inr evict_list \<Rightarrow>
          (if evict_list = [] then (Inr None, s)
           else
             (let frame_id = fst (hd (sort_by evict_less evict_list))
              in (Inr (Some frame_id),
                  s\<lparr>node_store := erase_node frame_id (node_store s),
                    curr_size := curr_size s - 1\<rparr>))))"

subsection \<open>RecordAccess\<close>

text \<open>Line 66: \<open>node_store_[frame_id].history_.push_back(current_timestamp_++)\<close>.\<close>

definition push_timestamp :: "lru_k_replacer \<Rightarrow> frame_id_t \<Rightarrow> (frame_id_t \<times> LRUKNode) list \<Rightarrow> lru_k_replacer" where
  "push_timestamp s fid store =
     (let node = (case map_of store fid of None \<Rightarrow> default_node | Some n \<Rightarrow> n)
      in s\<lparr>node_store := AList.update fid (node\<lparr>history := history node @ [current_timestamp s]\<rparr>) store,
           current_timestamp := current_timestamp s + 1\<rparr>)"

definition RecordAccess :: "lru_k_replacer \<Rightarrow> frame_id_t \<Rightarrow> (error + unit) \<times> lru_k_replacer" where
  "RecordAccess s frame_id =
     (if (scast frame_id :: size_t) \<ge> replacer_size s then (Inl OutOfRange, s)
      else
        (case map_of (node_store s) frame_id of
           None \<Rightarrow>
             (Inr (), push_timestamp s frame_id (node_store s @ [(frame_id, default_node)]))
         | Some node \<Rightarrow>
             (if length (history node) \<ge> unat (lru_k s) then
                (case history node of
                   [] \<Rightarrow> (Inl EmptyDeque, s)
                 | _ # popped \<Rightarrow>
                     (Inr (), push_timestamp s frame_id
                        (AList.update frame_id (node\<lparr>history := popped\<rparr>) (node_store s))))
              else (Inr (), push_timestamp s frame_id (node_store s)))))"

subsection \<open>SetEvictable, Remove, Size\<close>

definition SetEvictable :: "lru_k_replacer \<Rightarrow> frame_id_t \<Rightarrow> bool \<Rightarrow> (error + unit) \<times> lru_k_replacer" where
  "SetEvictable s frame_id set_evictable =
     (if (scast frame_id :: size_t) \<ge> replacer_size s then (Inl OutOfRange, s)
      else
        (case map_of (node_store s) frame_id of
           None \<Rightarrow> (Inl OutOfRange, s)
         | Some node \<Rightarrow>
             (if set_evictable \<noteq> is_evictable node then
                (Inr (),
                 s\<lparr>curr_size := (if set_evictable then curr_size s + 1 else curr_size s - 1),
                   node_store := AList.update frame_id (node\<lparr>is_evictable := set_evictable\<rparr>) (node_store s)\<rparr>)
              else (Inr (), s))))"

definition Remove :: "lru_k_replacer \<Rightarrow> frame_id_t \<Rightarrow> (error + unit) \<times> lru_k_replacer" where
  "Remove s frame_id =
     (if (scast frame_id :: size_t) \<ge> replacer_size s then (Inl OutOfRange, s)
      else
        (case map_of (node_store s) frame_id of
           None \<Rightarrow> (Inr (), s)
         | Some node \<Rightarrow>
             (if is_evictable node = False then (Inl LogicError, s)
              else
                (Inr (),
                 s\<lparr>node_store := erase_node frame_id (node_store s),
                   curr_size := curr_size s - 1\<rparr>))))"

definition Size :: "lru_k_replacer \<Rightarrow> size_t" where
  "Size s = curr_size s"


section \<open>Buffer pool manager (buffer\_pool\_manager.cpp)\<close>

text \<open>
  Modelled from the spec: config.h is not among the sources. A page is a fixed number of
  bytes (4 KiB), and the sentinel for an invalid page id is \<open>-1\<close>, which the source also
  uses as the frame id that signals failure.
\<close>

type_synonym page_data = "8 word list"

definition BUSTUB_PAGE_SIZE :: nat where
  "BUSTUB_PAGE_SIZE = 4096"

definition INVALID_PAGE_ID :: page_id_t where
  "INVALID_PAGE_ID = - 1"

text \<open>
  Modelled from the spec: the class \<open>Page\<close> (page.h) is not among the sources. A frame is
  a byte buffer with the metadata \<open>page_id\<close>, \<open>pin_count\<close> (a C++ \<open>int\<close>, kept as an
  integer), \<open>is_dirty\<close> and a reader-writer latch. The latch is kept as the number of
  read holders and a write-holder flag; \<open>RLatch\<close> and \<open>WLatch\<close> acquire it,
  \<open>ResetMemory\<close> zeroes the buffer.
\<close>

record Page =
  data :: page_data
  page_id :: page_id_t
  pin_count :: int
  is_dirty :: bool
  readers :: nat
  writer :: bool

definition empty_page :: Page where
  "empty_page =
     \<lparr>data = replicate BUSTUB_PAGE_SIZE 0, page_id = INVALID_PAGE_ID, pin_count = 0,
      is_dirty = False, readers = 0, writer = False\<rparr>"

definition ResetMemory :: "Page \<Rightarrow> Page" where
  "ResetMemory pg = pg\<lparr>data := replicate BUSTUB_PAGE_SIZE 0\<rparr>"

definition RLatch :: "Page \<Rightarrow> Page" where
  "RLatch pg = pg\<lparr>readers := readers pg + 1\<rparr>"

definition WLatch :: "Page \<Rightarrow> Page" where
  "WLatch pg = pg\<lparr>writer := True\<rparr>"

text \<open>
  Modelled from the spec: the disk scheduler and the disk manager are not among the
  sources. Stable storage is the log of the page writes scheduled so far, oldest first;
  a write request appends the page id with the bytes of the buffer, a read request
  returns the bytes last written for the page id (zeroes for a page never written).
  Both block until the request is done, so they are single steps here. The pool state
  has the members the source uses (declared in buffer\_pool\_manager.h), with stable
  storage in place of the disk scheduler.
\<close>

record bpm =
  pool_size :: size_t
  pages :: "Page list"
  replacer :: lru_k_replacer
  page_table :: "(page_id_t \<times> frame_id_t) list"
  free_list :: "frame_id_t list"
  next_page_id :: page_id_t
  disk :: "(page_id_t \<times> page_data) list"

definition read_disk :: "(page_id_t \<times> page_data) list \<Rightarrow> page_id_t \<Rightarrow> page_data" where
  "read_disk writes pid =
     (case map_of (rev writes) pid of None \<Rightarrow> replicate BUSTUB_PAGE_SIZE 0 | Some d \<Rightarrow> d)"

text \<open>
  \<open>pages_[frame_id]\<close> with an \<open>int\<close> index: inside the array it is the frame, outside it
  is undefined behaviour. A \<open>Page *\<close> into the array is the frame id, \<open>nullptr\<close> is
  \<open>None\<close>.
\<close>

definition frame_at :: "bpm \<Rightarrow> frame_id_t \<Rightarrow> Page option" where
  "frame_at s fid =
     (if 0 \<le> sint fid \<and> nat (sint fid) < length (pages s)
      then Some (pages s ! nat (sint fid)) else None)"

definition set_frame :: "bpm \<Rightarrow> frame_id_t \<Rightarrow> Page \<Rightarrow> bpm" where
  "set_frame s fid pg = s\<lparr>pages := (pages s)[nat (sint fid) := pg]\<rparr>"

text \<open>
  The constructor, lines 20 to 36. Its first statement throws, so the statements after
  it (\<open>bpm_init\<close>: the frame array, the replacer, the free list) are never reached.
\<close>

definition bpm_init :: "size_t \<Rightarrow> size_t \<Rightarrow> bpm" where
  "bpm_init pool_sz replacer_k =
     \<lparr>pool_size = pool_sz,
      pages = replicate (unat pool_sz) empty_page,
      replacer = LRUKReplacer pool_sz replacer_k,
      page_table = [],
      free_list = map (\<lambda>i. word_of_nat i) [0..<unat pool_sz],
      next_page_id = 0,
      disk = []\<rparr>"

definition BufferPoolManager :: "size_t \<Rightarrow> size_t \<Rightarrow> error + bpm" where
  "BufferPoolManager pool_sz replacer_k =
     (case (Inl NotImplementedException :: error + unit) of
        Inl e \<Rightarrow> Inl e
      | Inr _ \<Rightarrow> Inr (bpm_init pool_sz replacer_k))"

definition WriteFrame :: "bpm \<Rightarrow> frame_id_t \<Rightarrow> page_id_t \<Rightarrow> (error + unit) \<times> bpm" where
  "WriteFrame s frame_id pid =
     (case frame_at s frame_id of
        None \<Rightarrow> (Inl FrameOutOfBounds, s)
      | Some pg \<Rightarrow> (Inr (), s\<lparr>disk := disk s @ [(pid, data pg)]\<rparr>))"

definition ReadFrame :: "bpm \<Rightarrow> frame_id_t \<Rightarrow> page_id_t \<Rightarrow> (error + unit) \<times> bpm" where
  "ReadFrame s frame_id pid =
     (case frame_at s frame_id of
        None \<Rightarrow> (Inl FrameOutOfBounds, s)
      | Some pg \<Rightarrow> (Inr (), set_frame s frame_id (pg\<lparr>data := read_disk (disk s) pid\<rparr>)))"

definition AllocateFrame :: "bpm \<Rightarrow> (error + frame_id_t) \<times> bpm" where
  "AllocateFrame s =
     (case free_list s of
        front # rest \<Rightarrow> (Inr front, s\<lparr>free_list := rest\<rparr>)
      | [] \<Rightarrow>
          (case Evict (replacer s) of
             (Inl e, r) \<Rightarrow> (Inl e, s\<lparr>replacer := r\<rparr>)
           | (Inr None, r) \<Rightarrow> (Inr INVALID_PAGE_ID, s\<lparr>replacer := r\<rparr>)
           | (Inr (Some frame_id), r) \<Rightarrow>
               (let s1 = s\<lparr>replacer := r\<rparr> in
                case frame_at s1 frame_id of
                  None \<Rightarrow> (Inl FrameOutOfBounds, s1)
                | Some pg \<Rightarrow>
                    (case (if is_dirty pg then WriteFrame s1 frame_id (page_id pg) else (Inr (), s1)) of
                       (Inl e, s2) \<Rightarrow> (Inl e, s2)
                     | (Inr _, s2) \<Rightarrow>
                         (Inr frame_id,
                          s2\<lparr>page_table := AList.delete (page_id pg) (page_table s2)\<rparr>)))))"

text \<open>
  \<open>replacer_->RecordAccess(frame_id); replacer_->SetEvictable(frame_id, false);\<close>, the
  pair of calls that ends \<open>NewPage\<close> and both branches of \<open>FetchPage\<close>.
\<close>

definition record_and_pin :: "bpm \<Rightarrow> frame_id_t \<Rightarrow> (error + unit) \<times> bpm" where
  "record_and_pin s frame_id =
     (case RecordAccess (replacer s) frame_id of
        (Inl e, r) \<Rightarrow> (Inl e, s\<lparr>replacer := r\<rparr>)
      | (Inr _, r) \<Rightarrow>
          (case SetEvictable r frame_id False of
             (Inl e, r') \<Rightarrow> (Inl e, s\<lparr>replacer := r'\<rparr>)
           | (Inr _, r') \<Rightarrow> (Inr (), s\<lparr>replacer := r'\<rparr>)))"

text \<open>\<open>NewPage\<close> returns the new page id with the frame, \<open>None\<close> for \<open>nullptr\<close>.\<close>

definition NewPage :: "bpm \<Rightarrow> (error + (page_id_t \<times> frame_id_t) option) \<times> bpm" where
  "NewPage s =
     (case AllocateFrame s of
        (Inl e, s1) \<Rightarrow> (Inl e, s1)
      | (Inr frame_id, s1) \<Rightarrow>
          (if frame_id = INVALID_PAGE_ID then (Inr None, s1)
           else
             (let new_id = next_page_id s1;
                  s2 = s1\<lparr>next_page_id := next_page_id s1 + 1\<rparr>
              in case frame_at s2 frame_id of
                   None \<Rightarrow> (Inl FrameOutOfBounds, s2)
                 | Some pg \<Rightarrow>
                     (case record_and_pin
                             (set_frame s2 frame_id
                                ((ResetMemory pg)\<lparr>page_id := new_id, pin_count := 1, is_dirty := False\<rparr>))
                             frame_id of
                        (Inl e, s3) \<Rightarrow> (Inl e, s3)
                      | (Inr _, s3) \<Rightarrow>
                          (Inr (Some (new_id, frame_id)),
                           s3\<lparr>page_table := AList.update new_id frame_id (page_table s3)\<rparr>)))))"

definition FetchPage :: "bpm \<Rightarrow> page_id_t \<Rightarrow> (error + frame_id_t option) \<times> bpm" where
  "FetchPage s pid =
     (case map_of (page_table s) pid of
        Some frame_id \<Rightarrow>
          (case frame_at s frame_id of
             None \<Rightarrow> (Inl FrameOutOfBounds, s)
           | Some pg \<Rightarrow>
               (case record_and_pin (set_frame s frame_id (pg\<lparr>pin_count := pin_count pg + 1\<rparr>)) frame_id of
                  (Inl e, s1) \<Rightarrow> (Inl e, s1)
                | (Inr _, s1) \<Rightarrow> (Inr (Some frame_id), s1)))
      | None \<Rightarrow>
          (case AllocateFrame s of
             (Inl e, s1) \<Rightarrow> (Inl e, s1)
           | (Inr frame_id, s1) \<Rightarrow>
               (if frame_id = INVALID_PAGE_ID then (Inr None, s1)
                else
                  (case ReadFrame s1 frame_id pid of
                     (Inl e, s2) \<Rightarrow> (Inl e, s2)
                   | (Inr _, s2) \<Rightarrow>
                       (case frame_at s2 frame_id of
                          None \<Rightarrow> (Inl FrameOutOfBounds, s2)
                        | Some pg \<Rightarrow>
                            (case record_and_pin
                                    (set_frame s2 frame_id
                                       (pg\<lparr>page_id := pid, pin_count := 1, is_dirty := False\<rparr>))
                                    frame_id of
                               (Inl e, s3) \<Rightarrow> (Inl e, s3)
                             | (Inr _, s3) \<Rightarrow>
                                 (Inr (Some frame_id),
                                  s3\<lparr>page_table := AList.update pid frame_id (page_table s3)\<rparr>)))))))"

definition UnpinPage :: "bpm \<Rightarrow> page_id_t \<Rightarrow> bool \<Rightarrow> (error + bool) \<times> bpm" where
  "UnpinPage s pid dirty =
     (case map_of (page_table s) pid of
        None \<Rightarrow> (Inr False, s)
      | Some frame_id \<Rightarrow>
          (case frame_at s frame_id of
             None \<Rightarrow> (Inl FrameOutOfBounds, s)
           | Some pg \<Rightarrow>
               (if pin_count pg \<le> 0 then (Inr False, s)
                else
                  (let pg' = pg\<lparr>pin_count := pin_count pg - 1, is_dirty := (is_dirty pg \<or> dirty)\<rparr>;
                       s1 = set_frame s frame_id pg'
                   in if pin_count pg' = 0 then
                        (case SetEvictable (replacer s1) frame_id True of
                           (Inl e, r) \<Rightarrow> (Inl e, s1\<lparr>replacer := r\<rparr>)
                         | (Inr _, r) \<Rightarrow> (Inr True, s1\<lparr>replacer := r\<rparr>))
                      else (Inr True, s1)))))"

text \<open>
  \<open>DeallocatePage\<close> is declared in the header, which is not among the sources; the spec
  has it as a release hook that may do nothing, and it is left out.
\<close>

definition DeletePage :: "bpm \<Rightarrow> page_id_t \<Rightarrow> (error + bool) \<times> bpm" where
  "DeletePage s pid =
     (case map_of (page_table s) pid of
        None \<Rightarrow> (Inr True, s)
      | Some frame_id \<Rightarrow>
          (case frame_at s frame_id of
             None \<Rightarrow> (Inl FrameOutOfBounds, s)
           | Some pg \<Rightarrow>
               (if pin_count pg > 0 then (Inr False, s)
                else
                  (let s1 = s\<lparr>page_table := AList.delete pid (page_table s),
                              free_list := free_list s @ [frame_id]\<rparr>
                   in case Remove (replacer s1) frame_id of
                        (Inl e, r) \<Rightarrow> (Inl e, s1\<lparr>replacer := r\<rparr>)
                      | (Inr _, r) \<Rightarrow>
                          (Inr True,
                           set_frame (s1\<lparr>replacer := r\<rparr>) frame_id
                             ((ResetMemory pg)\<lparr>page_id := INVALID_PAGE_ID, pin_count := 0,
                                is_dirty := False\<rparr>))))))"

text \<open>
  \<open>FetchPageRead\<close> and \<open>FetchPageWrite\<close> call \<open>RLatch\<close> and \<open>WLatch\<close> through the pointer
  \<open>FetchPage\<close> returned, whatever it is, and then build the guard around the pointer.
\<close>

definition FetchPageRead :: "bpm \<Rightarrow> page_id_t \<Rightarrow> (error + frame_id_t option) \<times> bpm" where
  "FetchPageRead s pid =
     (case FetchPage s pid of
        (Inl e, s1) \<Rightarrow> (Inl e, s1)
      | (Inr page, s1) \<Rightarrow>
          (case page of
             None \<Rightarrow> (Inl NullDereference, s1)
           | Some frame_id \<Rightarrow>
               (case frame_at s1 frame_id of
                  None \<Rightarrow> (Inl FrameOutOfBounds, s1)
                | Some pg \<Rightarrow> (Inr page, set_frame s1 frame_id (RLatch pg)))))"

definition FetchPageWrite :: "bpm \<Rightarrow> page_id_t \<Rightarrow> (error + frame_id_t option) \<times> bpm" where
  "FetchPageWrite s pid =
     (case FetchPage s pid of
        (Inl e, s1) \<Rightarrow> (Inl e, s1)
      | (Inr page, s1) \<Rightarrow>
          (case page of
             None \<Rightarrow> (Inl NullDereference, s1)
           | Some frame_id \<Rightarrow>
               (case frame_at s1 frame_id of
                  None \<Rightarrow> (Inl FrameOutOfBounds, s1)
                | Some pg \<Rightarrow> (Inr page, set_frame s1 frame_id (WLatch pg)))))"


section \<open>Vocabulary of the properties\<close>

text \<open>
  The spec's wording of \<open>record_access\<close>: create the node if the frame is unknown, append
  the current timestamp to its history, then trim the history to at most k entries by
  dropping the oldest ones (none when it has at most k). It is compared with
  \<open>RecordAccess\<close> below.
\<close>

definition spec_record_access :: "lru_k_replacer \<Rightarrow> frame_id_t \<Rightarrow> (error + unit) \<times> lru_k_replacer" where
  "spec_record_access s frame_id =
     (if (scast frame_id :: size_t) \<ge> replacer_size s then (Inl OutOfRange, s)
      else
        (let node = (case map_of (node_store s) frame_id of None \<Rightarrow> default_node | Some n \<Rightarrow> n);
             appended = history node @ [current_timestamp s];
             trimmed = drop (length appended - unat (lru_k s)) appended
         in (Inr (),
             s\<lparr>node_store := AList.update frame_id (node\<lparr>history := trimmed\<rparr>) (node_store s),
               current_timestamp := current_timestamp s + 1\<rparr>)))"

text \<open>The evictable nodes, and how many there are.\<close>

definition evictable_nodes :: "lru_k_replacer \<Rightarrow> (frame_id_t \<times> LRUKNode) list" where
  "evictable_nodes s = filter (\<lambda>(fid, node). is_evictable node) (node_store s)"

definition evictable_count :: "lru_k_replacer \<Rightarrow> nat" where
  "evictable_count s = length (evictable_nodes s)"

text \<open>
  The k-distance of the spec: infinite with fewer than k recorded accesses, otherwise the
  current timestamp minus the oldest recorded one, as numbers. \<open>preferred s a b\<close> says
  that node \<open>a\<close> goes before node \<open>b\<close>: larger k-distance, or the same k-distance and an
  oldest timestamp that is not later.
\<close>

definition k_distance :: "lru_k_replacer \<Rightarrow> LRUKNode \<Rightarrow> enat" where
  "k_distance s node =
     (if length (history node) < unat (lru_k s) then \<infinity>
      else enat (unat (current_timestamp s) - unat (hd (history node))))"

definition preferred :: "lru_k_replacer \<Rightarrow> LRUKNode \<Rightarrow> LRUKNode \<Rightarrow> bool" where
  "preferred s a b \<longleftrightarrow>
     k_distance s a > k_distance s b \<or>
     (k_distance s a = k_distance s b \<and> hd (history a) \<le> hd (history b))"

text \<open>
  The state a replacer is in between calls: the keys of the node store are distinct (it
  is a map) and \<open>curr_size_\<close> counts the evictable nodes; every node has a recorded access,
  all recorded timestamps are before the current one and no timestamp is recorded twice,
  and the timestamp counter has not reached \<open>SIZE_MAX\<close>.
\<close>

definition store_ok :: "lru_k_replacer \<Rightarrow> bool" where
  "store_ok s \<longleftrightarrow>
     distinct (map fst (node_store s)) \<and> unat (curr_size s) = evictable_count s"

text \<open>No node holds more than k recorded timestamps.\<close>

definition history_bounded :: "lru_k_replacer \<Rightarrow> bool" where
  "history_bounded s \<longleftrightarrow>
     list_all (\<lambda>(fid, node). length (history node) \<le> unat (lru_k s)) (node_store s)"

definition node_ok :: "lru_k_replacer \<Rightarrow> LRUKNode \<Rightarrow> bool" where
  "node_ok s n \<longleftrightarrow> history n \<noteq> [] \<and> list_all (\<lambda>t. t < current_timestamp s) (history n)"

definition stamps :: "(frame_id_t \<times> LRUKNode) list \<Rightarrow> size_t list" where
  "stamps store = concat (map (\<lambda>(fid, node). history node) store)"

definition history_ok :: "lru_k_replacer \<Rightarrow> bool" where
  "history_ok s \<longleftrightarrow>
     list_all (\<lambda>(fid, node). node_ok s node) (node_store s) \<and>
     distinct (stamps (node_store s)) \<and>
     current_timestamp s \<noteq> - 1"

text \<open>
  The tuple that \<open>Evict\<close> pushes for an evictable node, and its middle component: the
  k-distance as the code computes it, a \<open>size_t\<close> with \<open>SIZE_MAX\<close> for infinity.
\<close>

definition kd_word :: "lru_k_replacer \<Rightarrow> LRUKNode \<Rightarrow> size_t" where
  "kd_word s node =
     (if length (history node) < unat (lru_k s) then - 1
      else current_timestamp s - hd (history node))"

definition entry_of :: "lru_k_replacer \<Rightarrow> frame_id_t \<times> LRUKNode \<Rightarrow> evict_entry" where
  "entry_of s fn = (fst fn, kd_word s (snd fn), hd (history (snd fn)))"

text \<open>Sequences of replacer calls; a call that throws leaves the replacer as it was.\<close>

datatype replacer_op =
    OpRecordAccess frame_id_t
  | OpSetEvictable frame_id_t bool
  | OpEvict
  | OpRemove frame_id_t

fun apply_op :: "lru_k_replacer \<Rightarrow> replacer_op \<Rightarrow> lru_k_replacer" where
  "apply_op s (OpRecordAccess fid) = snd (RecordAccess s fid)"
| "apply_op s (OpSetEvictable fid b) = snd (SetEvictable s fid b)"
| "apply_op s OpEvict = snd (Evict s)"
| "apply_op s (OpRemove fid) = snd (Remove s fid)"

definition run_ops :: "lru_k_replacer \<Rightarrow> replacer_op list \<Rightarrow> lru_k_replacer" where
  "run_ops s ops = foldl apply_op s ops"


text \<open>
  The warm-up scenario of the spec (k = 2, three frames): frame 0 is accessed once, frame
  1 twice, and both are made evictable.
\<close>

definition warmup_ops :: "replacer_op list" where
  "warmup_ops =
     [OpRecordAccess 0, OpRecordAccess 1, OpRecordAccess 1,
      OpSetEvictable 0 True, OpSetEvictable 1 True]"

definition warmup :: lru_k_replacer where
  "warmup = run_ops (LRUKReplacer 3 2) warmup_ops"

text \<open>A replacer with one tracked frame that is not evictable.\<close>

definition pinned_one :: lru_k_replacer where
  "pinned_one = run_ops (LRUKReplacer 3 2) [OpRecordAccess 2]"

text \<open>
  Pool states for the scenarios: a pool of one frame (k = 2) after \<open>NewPage\<close>, with page
  0 pinned in frame 0.
\<close>

definition one_pinned :: bpm where
  "one_pinned = snd (NewPage (bpm_init 1 2))"

text \<open>The holder of a page handle writes bytes into the frame's buffer.\<close>

definition caller_writes :: "bpm \<Rightarrow> frame_id_t \<Rightarrow> page_data \<Rightarrow> bpm" where
  "caller_writes s fid bytes =
     (case frame_at s fid of None \<Rightarrow> s | Some pg \<Rightarrow> set_frame s fid (pg\<lparr>data := bytes\<rparr>))"

text \<open>The holder writes the page and unpins it as dirty: frame 0 is evictable.\<close>

definition one_dirty :: bpm where
  "one_dirty = snd (UnpinPage (caller_writes one_pinned 0 [42]) 0 True)"

text \<open>The dirty page is fetched again (pin count 1), and once more (pin count 2).\<close>

definition refetched :: bpm where
  "refetched = snd (FetchPage one_dirty 0)"

definition two_pins :: bpm where
  "two_pins = snd (FetchPage refetched 0)"

text \<open>
  The state a pool is in between calls. Every page-table entry names a frame of the pool
  that holds that page with a pin count that is not negative, is in the replacer's range
  and tracked by it, and is evictable there when its pin count is 0; page ids are keys
  of a map; the free list has no frame twice and no resident frame.
\<close>

definition entry_ok :: "bpm \<Rightarrow> page_id_t \<times> frame_id_t \<Rightarrow> bool" where
  "entry_ok s e =
     (case frame_at s (snd e) of
        None \<Rightarrow> False
      | Some pg \<Rightarrow>
          page_id pg = fst e \<and> 0 \<le> pin_count pg \<and>
          (scast (snd e) :: size_t) < replacer_size (replacer s) \<and>
          (case map_of (node_store (replacer s)) (snd e) of
             None \<Rightarrow> False
           | Some node \<Rightarrow> pin_count pg = 0 \<longrightarrow> is_evictable node))"

definition bpm_ok :: "bpm \<Rightarrow> bool" where
  "bpm_ok s \<longleftrightarrow>
     distinct (map fst (page_table s)) \<and> list_all (entry_ok s) (page_table s) \<and>
     distinct (free_list s) \<and> list_all (\<lambda>fid. fid \<notin> snd ` set (page_table s)) (free_list s)"

text \<open>Sequences of pool calls; a call that throws leaves the state it reached.\<close>

datatype bpm_op =
    OpNewPage
  | OpFetchPage page_id_t
  | OpFetchPageRead page_id_t
  | OpFetchPageWrite page_id_t
  | OpUnpinPage page_id_t bool
  | OpDeletePage page_id_t

fun apply_bpm_op :: "bpm \<Rightarrow> bpm_op \<Rightarrow> bpm" where
  "apply_bpm_op s OpNewPage = snd (NewPage s)"
| "apply_bpm_op s (OpFetchPage pid) = snd (FetchPage s pid)"
| "apply_bpm_op s (OpFetchPageRead pid) = snd (FetchPageRead s pid)"
| "apply_bpm_op s (OpFetchPageWrite pid) = snd (FetchPageWrite s pid)"
| "apply_bpm_op s (OpUnpinPage pid dirty) = snd (UnpinPage s pid dirty)"
| "apply_bpm_op s (OpDeletePage pid) = snd (DeletePage s pid)"

definition run_bpm_ops :: "bpm \<Rightarrow> bpm_op list \<Rightarrow> bpm" where
  "run_bpm_ops s ops = foldl apply_bpm_op s ops"

section \<open>Association lists and counting\<close>

lemma erase_node_tracked:
  "map_of store fid = Some node \<Longrightarrow> erase_node fid store = AList.delete fid store"
  by (simp add: erase_node_def delete_update_same)

lemma map_of_delete_same: "map_of (AList.delete fid store) fid = None"
  by (simp add: delete_conv')

lemma ev_count_delete:
  "distinct (map fst store) \<Longrightarrow> map_of store fid = Some node \<Longrightarrow>
   length (filter (\<lambda>(f, n). is_evictable n) (AList.delete fid store)) + (if is_evictable node then 1 else 0)
     = length (filter (\<lambda>(f, n). is_evictable n) store)"
proof (induction store)
  case Nil
  then show ?case by simp
next
  case (Cons a store)
  obtain g m where a: "a = (g, m)" by (cases a)
  show ?case
  proof (cases "g = fid")
    case True
    with Cons.prems a have "m = node" by simp
    moreover from Cons.prems a True have "fid \<notin> fst ` set store" by auto
    then have "AList.delete fid store = store" by (simp add: delete_id)
    ultimately show ?thesis using a True by simp
  next
    case False
    with Cons a show ?thesis by simp
  qed
qed

lemma ev_count_update:
  "distinct (map fst store) \<Longrightarrow> map_of store fid = Some node \<Longrightarrow>
   length (filter (\<lambda>(f, n). is_evictable n) (AList.update fid node' store)) + (if is_evictable node then 1 else 0)
     = length (filter (\<lambda>(f, n). is_evictable n) store) + (if is_evictable node' then 1 else 0)"
proof (induction store)
  case Nil
  then show ?case by simp
next
  case (Cons a store)
  obtain g m where a: "a = (g, m)" by (cases a)
  show ?case
  proof (cases "g = fid")
    case True
    with Cons.prems a have "m = node" by simp
    then show ?thesis using a True by simp
  next
    case False
    with Cons a show ?thesis by simp
  qed
qed

lemma ev_count_le: "length (filter P store) \<le> length store"
  by simp

lemma length_distinct_keys:
  fixes store :: "(frame_id_t \<times> 'b) list"
  assumes "distinct (map fst store)"
  shows "length store \<le> 2 ^ 32"
proof -
  have "length store = length (map fst store)" by simp
  also have "\<dots> = card (set (map fst store))" using distinct_card [OF assms] by simp
  also have "\<dots> \<le> card (UNIV :: frame_id_t set)" by (rule card_mono) auto
  also have "\<dots> = 2 ^ 32" by (simp add: card_word)
  finally show ?thesis .
qed

section \<open>The candidates of Evict and the sort\<close>

lemma evict_candidates_Inr:
  "evict_candidates s store = Inr l \<Longrightarrow>
   l = map (entry_of s) (filter (\<lambda>(f, n). is_evictable n) store)"
proof (induction store arbitrary: l)
  case Nil
  then show ?case by simp
next
  case (Cons a store)
  obtain g m where a: "a = (g, m)" by (cases a)
  show ?case
  proof (cases "is_evictable m")
    case False
    with Cons a show ?thesis by simp
  next
    case True
    with Cons.prems a obtain t ts l' where h: "history m = t # ts"
      and r: "evict_candidates s store = Inr l'"
      and l: "l = (if length (history m) < unat (lru_k s) then (g, - 1, t) else (g, current_timestamp s - t, t)) # l'"
      by (auto split: list.splits sum.splits)
    from Cons.IH [OF r] have "l' = map (entry_of s) (filter (\<lambda>(f, n). is_evictable n) store)" .
    with l h a True show ?thesis by (simp add: entry_of_def kd_word_def)
  qed
qed

lemma evict_candidates_total:
  "list_all (\<lambda>(f, n). is_evictable n \<longrightarrow> history n \<noteq> []) store \<Longrightarrow>
   \<exists>l. evict_candidates s store = Inr l"
proof (induction store)
  case Nil
  then show ?case by simp
next
  case (Cons a store)
  obtain g m where a: "a = (g, m)" by (cases a)
  from Cons obtain l where l: "evict_candidates s store = Inr l" by auto
  show ?case
  proof (cases "is_evictable m")
    case False
    with l a show ?thesis by simp
  next
    case True
    with Cons.prems a obtain t ts where "history m = t # ts" by (cases "history m") auto
    with l a True show ?thesis by simp
  qed
qed

lemma fst_entry_of [simp]: "fst (entry_of s fn) = fst fn"
  by (simp add: entry_of_def)

lemma set_insert_by: "set (insert_by lt x ys) = insert x (set ys)"
  by (induction ys) auto

lemma set_sort_by: "set (sort_by lt xs) = set xs"
  by (induction xs) (simp_all add: sort_by_def set_insert_by)

lemma sort_by_Nil_iff: "sort_by lt xs = [] \<longleftrightarrow> xs = []"
  using set_sort_by [of lt xs] by (metis set_empty)

lemma sort_by_Cons: "sort_by lt (x # xs) = insert_by lt x (sort_by lt xs)"
  by (simp add: sort_by_def)

lemma hd_insert_by:
  "hd (insert_by lt x ys) = (if ys \<noteq> [] \<and> lt (hd ys) x then hd ys else x)"
  by (cases ys) auto

lemma hd_sort_by_minimal:
  assumes asym: "\<And>a b. lt a b \<Longrightarrow> \<not> lt b a"
    and ntrans: "\<And>a b c. \<not> lt a b \<Longrightarrow> \<not> lt b c \<Longrightarrow> \<not> lt a c"
  shows "xs \<noteq> [] \<Longrightarrow> y \<in> set xs \<Longrightarrow> \<not> lt y (hd (sort_by lt xs))"
proof (induction xs arbitrary: y)
  case Nil
  then show ?case by simp
next
  case (Cons x xs)
  show ?case
  proof (cases "xs = []")
    case True
    with Cons.prems have "y = x" by simp
    with True asym show ?thesis by (auto simp: sort_by_def)
  next
    case False
    then have ne: "sort_by lt xs \<noteq> []" by (simp add: sort_by_Nil_iff)
    let ?m = "hd (sort_by lt xs)"
    have min: "\<And>z. z \<in> set xs \<Longrightarrow> \<not> lt z ?m" using Cons.IH False by blast
    show ?thesis
    proof (cases "lt ?m x")
      case True
      then have hd: "hd (sort_by lt (x # xs)) = ?m" using ne by (simp add: sort_by_Cons hd_insert_by)
      from Cons.prems(2) have "y = x \<or> y \<in> set xs" by auto
      then show ?thesis using hd True asym min by auto
    next
      case nlt: False
      then have hd: "hd (sort_by lt (x # xs)) = x" by (simp add: sort_by_Cons hd_insert_by)
      from Cons.prems(2) have "y = x \<or> y \<in> set xs" by auto
      then show ?thesis
      proof
        assume "y = x"
        then show ?thesis using hd asym by auto
      next
        assume "y \<in> set xs"
        then have "\<not> lt y ?m" by (rule min)
        from ntrans [OF this nlt] show ?thesis using hd by simp
      qed
    qed
  qed
qed

lemma evict_less_asym: "evict_less a b \<Longrightarrow> \<not> evict_less b a"
  by (auto simp: evict_less_def split: if_splits)

lemma evict_less_ntrans: "\<not> evict_less a b \<Longrightarrow> \<not> evict_less b c \<Longrightarrow> \<not> evict_less a c"
  by (auto simp: evict_less_def split: if_splits)

section \<open>The code's k-distance against the spec's\<close>

lemma size_t_sub_no_wrap:
  fixes cur t :: size_t
  assumes "t < cur"
  shows "unat (cur - t) = unat cur - unat t"
  using assms by (simp add: unat_sub)

lemma size_t_less_minus_one:
  fixes d :: size_t
  shows "d \<noteq> - 1 \<Longrightarrow> d < - 1"
  by (simp add: word_order.not_eq_extremum)

lemma size_t_less_succ:
  fixes cur :: size_t
  shows "cur \<noteq> - 1 \<Longrightarrow> cur < cur + 1"
  by (meson inc_less_eq_triv_imp verit_comp_simplify1(3))

lemma size_t_sub_not_max:
  fixes cur t :: size_t
  assumes "t < cur" "cur \<noteq> - 1"
  shows "cur - t \<noteq> - 1"
proof
  assume "cur - t = - 1"
  then have "cur + 1 = t" by (simp add: algebra_simps)
  moreover from assms(2) have "cur < cur + 1" by (rule size_t_less_succ)
  ultimately show False using assms(1) by simp
qed

lemma entry_of_kd: "entry_of s (f, n) = (f, kd_word s n, hd (history n))"
  by (simp add: entry_of_def)

lemma node_ok_hd: "node_ok s n \<Longrightarrow> hd (history n) < current_timestamp s"
  by (cases "history n") (auto simp: node_ok_def)

lemma kd_word_less_imp:
  assumes a: "node_ok s a" and b: "node_ok s b" and cur: "current_timestamp s \<noteq> - 1"
    and lt: "kd_word s b < kd_word s a"
  shows "k_distance s b < k_distance s a"
proof (cases "length (history a) < unat (lru_k s)")
  case True
  then have "kd_word s a = - 1" by (simp add: kd_word_def)
  with lt have "kd_word s b \<noteq> - 1" by auto
  then have "\<not> length (history b) < unat (lru_k s)" by (auto simp: kd_word_def)
  with True show ?thesis by (simp add: k_distance_def)
next
  case False
  show ?thesis
  proof (cases "length (history b) < unat (lru_k s)")
    case True
    then have "kd_word s b = - 1" by (simp add: kd_word_def)
    with lt show ?thesis by simp
  next
    case fb: False
    from False fb lt have "current_timestamp s - hd (history b) < current_timestamp s - hd (history a)"
      by (simp add: kd_word_def)
    then have "unat (current_timestamp s - hd (history b)) < unat (current_timestamp s - hd (history a))"
      by (simp add: word_less_nat_alt)
    then have "unat (current_timestamp s) - unat (hd (history b)) < unat (current_timestamp s) - unat (hd (history a))"
      by (simp add: size_t_sub_no_wrap node_ok_hd a b)
    with False fb show ?thesis by (simp add: k_distance_def)
  qed
qed

lemma kd_word_eq_imp:
  assumes a: "node_ok s a" and b: "node_ok s b" and cur: "current_timestamp s \<noteq> - 1"
    and eq: "kd_word s b = kd_word s a"
  shows "k_distance s b = k_distance s a"
proof (cases "length (history a) < unat (lru_k s)")
  case True
  then have "kd_word s a = - 1" by (simp add: kd_word_def)
  with eq have "kd_word s b = - 1" by simp
  then have "length (history b) < unat (lru_k s)"
    using size_t_sub_not_max [OF node_ok_hd [OF b] cur] by (auto simp: kd_word_def split: if_splits)
  with True show ?thesis by (simp add: k_distance_def)
next
  case False
  then have "kd_word s a = current_timestamp s - hd (history a)" by (simp add: kd_word_def)
  then have "kd_word s a \<noteq> - 1" using size_t_sub_not_max [OF node_ok_hd [OF a] cur] by simp
  with eq have fb: "\<not> length (history b) < unat (lru_k s)" by (auto simp: kd_word_def)
  with False eq have "current_timestamp s - hd (history b) = current_timestamp s - hd (history a)"
    by (simp add: kd_word_def)
  then have "unat (current_timestamp s - hd (history b)) = unat (current_timestamp s - hd (history a))"
    by simp
  then have "unat (current_timestamp s) - unat (hd (history b)) = unat (current_timestamp s) - unat (hd (history a))"
    by (simp add: size_t_sub_no_wrap node_ok_hd a b)
  with False fb show ?thesis by (simp add: k_distance_def)
qed

lemma not_evict_less_preferred:
  assumes a: "node_ok s a" and b: "node_ok s b" and cur: "current_timestamp s \<noteq> - 1"
    and nl: "\<not> evict_less (entry_of s (g, b)) (entry_of s (f, a))"
  shows "preferred s a b"
proof (cases "kd_word s b = kd_word s a")
  case True
  with nl have "hd (history a) \<le> hd (history b)" by (simp add: evict_less_def entry_of_kd)
  moreover from kd_word_eq_imp [OF a b cur True] have "k_distance s a = k_distance s b" by simp
  ultimately show ?thesis by (simp add: preferred_def)
next
  case False
  with nl have "kd_word s b < kd_word s a" by (simp add: evict_less_def entry_of_kd)
  from kd_word_less_imp [OF a b cur this] show ?thesis by (simp add: preferred_def)
qed

section \<open>Evict\<close>

lemma history_ok_node:
  "history_ok s \<Longrightarrow> (f, n) \<in> set (node_store s) \<Longrightarrow> node_ok s n"
  by (auto simp: history_ok_def list_all_iff)

lemma evictable_nodes_mem:
  "(f, n) \<in> set (evictable_nodes s) \<longleftrightarrow> (f, n) \<in> set (node_store s) \<and> is_evictable n"
  by (auto simp: evictable_nodes_def)

lemma evict_candidates_ok:
  assumes "history_ok s"
  shows "evict_candidates s (node_store s) = Inr (map (entry_of s) (evictable_nodes s))"
proof -
  have "list_all (\<lambda>(f, n). is_evictable n \<longrightarrow> history n \<noteq> []) (node_store s)"
    using assms by (auto simp: history_ok_def node_ok_def list_all_iff)
  from evict_candidates_total [OF this] obtain l where l: "evict_candidates s (node_store s) = Inr l"
    by blast
  from evict_candidates_Inr [OF l] l show ?thesis by (simp add: evictable_nodes_def)
qed

lemma Evict_none:
  assumes "evict_candidates s (node_store s) = Inr (map (entry_of s) (evictable_nodes s))"
    and "evictable_nodes s = []"
  shows "Evict s = (Inr None, s)"
  using assms by (simp add: Evict_def)

lemma Evict_some:
  assumes c: "evict_candidates s (node_store s) = Inr (map (entry_of s) (evictable_nodes s))"
    and ne: "evictable_nodes s \<noteq> []"
  shows "\<exists>fid node. (fid, node) \<in> set (evictable_nodes s) \<and>
           Evict s = (Inr (Some fid), s\<lparr>node_store := erase_node fid (node_store s), curr_size := curr_size s - 1\<rparr>) \<and>
           (\<forall>(g, m) \<in> set (evictable_nodes s). \<not> evict_less (entry_of s (g, m)) (entry_of s (fid, node)))"
proof -
  let ?l = "map (entry_of s) (evictable_nodes s)"
  from ne have lne: "?l \<noteq> []" by simp
  then have sne: "sort_by evict_less ?l \<noteq> []" by (simp add: sort_by_Nil_iff)
  then obtain front rest where fr: "sort_by evict_less ?l = front # rest"
    by (cases "sort_by evict_less ?l") auto
  then have hd: "hd (sort_by evict_less ?l) = front" by simp
  from fr have "front \<in> set (sort_by evict_less ?l)" by simp
  then have "front \<in> set ?l" by (simp only: set_sort_by)
  then obtain fid node where mem: "(fid, node) \<in> set (evictable_nodes s)"
    and front: "front = entry_of s (fid, node)" by auto
  have ev: "Evict s = (Inr (Some fid), s\<lparr>node_store := erase_node fid (node_store s), curr_size := curr_size s - 1\<rparr>)"
    using c fr front lne by (simp add: Evict_def Let_def)
  have "\<forall>(g, m) \<in> set (evictable_nodes s). \<not> evict_less (entry_of s (g, m)) (entry_of s (fid, node))"
  proof (clarify)
    fix g m
    assume gm: "(g, m) \<in> set (evictable_nodes s)" and less: "evict_less (entry_of s (g, m)) (entry_of s (fid, node))"
    from gm have "entry_of s (g, m) \<in> set ?l" by auto
    from hd_sort_by_minimal [of evict_less, OF evict_less_asym evict_less_ntrans lne this]
    have "\<not> evict_less (entry_of s (g, m)) front" by (simp add: hd)
    with less front show False by simp
  qed
  with mem ev show ?thesis by blast
qed

lemma store_ok_lookup:
  "distinct (map fst (node_store s)) \<Longrightarrow> (f, n) \<in> set (node_store s) \<Longrightarrow> map_of (node_store s) f = Some n"
  by simp

lemma size_t_pred_unat:
  fixes c :: size_t
  shows "0 < unat c \<Longrightarrow> unat (c - 1) + 1 = unat c"
  by (metis Suc_eq_plus1 Suc_pred' unat_minus_one unsigned_eq_0_iff less_nat_zero_code)

lemma erase_keeps_store_ok:
  assumes ok: "store_ok s" and look: "map_of (node_store s) fid = Some node" and ev: "is_evictable node"
  shows "evictable_count (s\<lparr>node_store := AList.delete fid (node_store s), curr_size := curr_size s - 1\<rparr>) + 1
           = evictable_count s"
    and "unat (curr_size s - 1) + 1 = unat (curr_size s)"
    and "store_ok (s\<lparr>node_store := AList.delete fid (node_store s), curr_size := curr_size s - 1\<rparr>)"
proof -
  from ok have d: "distinct (map fst (node_store s))" and c: "unat (curr_size s) = evictable_count s"
    by (simp_all add: store_ok_def)
  from ev_count_delete [OF d look] ev
  show 1: "evictable_count (s\<lparr>node_store := AList.delete fid (node_store s), curr_size := curr_size s - 1\<rparr>) + 1
           = evictable_count s"
    by (simp add: evictable_count_def evictable_nodes_def)
  then have "0 < unat (curr_size s)" using c by simp
  then show 2: "unat (curr_size s - 1) + 1 = unat (curr_size s)" by (rule size_t_pred_unat)
  from d have "distinct (map fst (AList.delete fid (node_store s)))" by (rule distinct_delete)
  with 1 2 c show "store_ok (s\<lparr>node_store := AList.delete fid (node_store s), curr_size := curr_size s - 1\<rparr>)"
    by (simp add: store_ok_def)
qed

subsection \<open>Recorded timestamps are not shared between nodes\<close>

lemma erase_node_eq_delete: "erase_node fid store = AList.delete fid store"
proof (cases "map_of store fid")
  case None
  then show ?thesis by (simp add: erase_node_def AList.delete_eq)
next
  case (Some node)
  then show ?thesis by (simp add: erase_node_def delete_update_same)
qed

lemma stamps_Cons [simp]: "stamps ((f, n) # store) = history n @ stamps store"
  by (simp add: stamps_def)

lemma stamps_Nil [simp]: "stamps [] = []"
  by (simp add: stamps_def)

lemma stamps_append [simp]: "stamps (xs @ ys) = stamps xs @ stamps ys"
  by (simp add: stamps_def)

lemma set_stamps: "set (stamps store) = (\<Union>(f, n) \<in> set store. set (history n))"
  by (auto simp: stamps_def)

lemma set_stamps_delete: "set (stamps (AList.delete fid store)) \<subseteq> set (stamps store)"
  by (auto simp: set_stamps AList.delete_eq)

lemma distinct_stamps_delete:
  "distinct (stamps store) \<Longrightarrow> distinct (stamps (AList.delete fid store))"
proof (induction store)
  case Nil
  then show ?case by simp
next
  case (Cons a store)
  obtain g m where a: "a = (g, m)" by (cases a)
  from Cons.prems a have d: "distinct (history m)" "distinct (stamps store)"
    "set (history m) \<inter> set (stamps store) = {}" by simp_all
  from Cons.IH [OF d(2)] have ih: "distinct (stamps (AList.delete fid store))" .
  from d(3) set_stamps_delete [of fid store]
  have "set (history m) \<inter> set (stamps (AList.delete fid store)) = {}" by blast
  with ih d(1) a show ?case by simp
qed

lemma set_stamps_update:
  "set (stamps (AList.update fid node' store)) \<subseteq> set (stamps store) \<union> set (history node')"
  by (induction store) (auto split: if_splits)

lemma distinct_stamps_update:
  assumes "distinct (stamps store)" and "map_of store fid = Some node"
    and "distinct (history node')" and "set (history node') \<subseteq> set (history node) \<union> {c}"
    and "c \<notin> set (stamps store)"
  shows "distinct (stamps (AList.update fid node' store))"
  using assms(1,2,5)
proof (induction store)
  case Nil
  then show ?case by simp
next
  case (Cons a store)
  obtain g m where a: "a = (g, m)" by (cases a)
  from Cons.prems(1) a have d: "distinct (history m)" "distinct (stamps store)"
    "set (history m) \<inter> set (stamps store) = {}" by simp_all
  from Cons.prems(3) a have c: "c \<notin> set (history m)" "c \<notin> set (stamps store)" by simp_all
  show ?case
  proof (cases "g = fid")
    case True
    with Cons.prems(2) a have "m = node" by simp
    with d(3) c(2) assms(4) have "set (history node') \<inter> set (stamps store) = {}" by blast
    with assms(3) d(2) a True show ?thesis by simp
  next
    case False
    with Cons.prems(2) a have look: "map_of store fid = Some node" by simp
    from Cons.IH [OF d(2) look c(2)] have ih: "distinct (stamps (AList.update fid node' store))" .
    have "set (history node) \<subseteq> set (stamps store)"
      using map_of_SomeD [OF look] by (auto simp: set_stamps)
    with d(3) have "set (history m) \<inter> set (history node) = {}" by blast
    with assms(4) c(1) have "set (history m) \<inter> set (history node') = {}" by blast
    with d(3) set_stamps_update [of fid node' store]
    have "set (history m) \<inter> set (stamps (AList.update fid node' store)) = {}" by blast
    with ih d(1) a False show ?thesis by simp
  qed
qed

lemma stamps_update_same_history:
  "map_of store fid = Some node \<Longrightarrow> history node' = history node \<Longrightarrow>
   stamps (AList.update fid node' store) = stamps store"
  by (induction store) (auto split: if_splits)

lemma stamps_owner_unique:
  assumes "distinct (stamps store)" and "(f, n) \<in> set store" and "(g, m) \<in> set store"
    and "t \<in> set (history n)" and "t \<in> set (history m)"
  shows "(f, n) = (g, m)"
  using assms
proof (induction store)
  case Nil
  then show ?case by simp
next
  case (Cons a store)
  obtain h k where a: "a = (h, k)" by (cases a)
  from Cons.prems(1) a have d: "distinct (stamps store)"
    "set (history k) \<inter> set (stamps store) = {}" by simp_all
  have in_rest: "\<And>x y. (x, y) \<in> set store \<Longrightarrow> t \<in> set (history y) \<Longrightarrow> t \<in> set (stamps store)"
    by (auto simp: set_stamps)
  show ?case
  proof (cases "(f, n) = a")
    case True
    show ?thesis
    proof (cases "(g, m) = a")
      case True
      with \<open>(f, n) = a\<close> show ?thesis by simp
    next
      case False
      with Cons.prems(3) have "(g, m) \<in> set store" by simp
      from in_rest [OF this Cons.prems(5)] True a Cons.prems(4) d(2) show ?thesis by auto
    qed
  next
    case False
    with Cons.prems(2) have fn: "(f, n) \<in> set store" by simp
    show ?thesis
    proof (cases "(g, m) = a")
      case True
      from in_rest [OF fn Cons.prems(4)] True a Cons.prems(5) d(2) show ?thesis by auto
    next
      case gm: False
      with Cons.prems(3) have "(g, m) \<in> set store" by simp
      from Cons.IH [OF d(1) fn this Cons.prems(4,5)] show ?thesis .
    qed
  qed
qed

lemma preferred_both:
  assumes "preferred s a b" and "preferred s b a"
  shows "hd (history a) = hd (history b)"
proof -
  from assms have "k_distance s b < k_distance s a \<or>
      (k_distance s a = k_distance s b \<and> hd (history a) \<le> hd (history b))"
    and "k_distance s a < k_distance s b \<or>
      (k_distance s b = k_distance s a \<and> hd (history b) \<le> hd (history a))"
    by (simp_all only: preferred_def)
  then have "hd (history a) \<le> hd (history b) \<and> hd (history b) \<le> hd (history a)"
    by (metis less_irrefl less_trans)
  then show ?thesis by (simp only: antisym)
qed

lemma preferred_unique:
  assumes h: "history_ok s" and fn: "(f, n) \<in> set (node_store s)" and gm: "(g, m) \<in> set (node_store s)"
    and p1: "preferred s n m" and p2: "preferred s m n"
  shows "(g, m) = (f, n)"
proof -
  from history_ok_node [OF h fn] have a: "hd (history n) \<in> set (history n)" by (simp add: node_ok_def)
  from history_ok_node [OF h gm] have "hd (history m) \<in> set (history m)" by (simp add: node_ok_def)
  with preferred_both [OF p1 p2] have b: "hd (history n) \<in> set (history m)" by (simp only:)
  from h have d: "distinct (stamps (node_store s))" by (simp add: history_ok_def)
  from stamps_owner_unique [OF d gm fn b a] show ?thesis .
qed

subsection \<open>The warm-up scenario, evaluated\<close>

lemma warmup_eq:
  "warmup =
     \<lparr>node_store = [(0, \<lparr>history = [0], is_evictable = True\<rparr>),
                    (1, \<lparr>history = [1, 2], is_evictable = True\<rparr>)],
      current_timestamp = 3, curr_size = 2, replacer_size = 3, lru_k = 2\<rparr>"
  by (simp add: warmup_def warmup_ops_def run_ops_def LRUKReplacer_def RecordAccess_def
      SetEvictable_def push_timestamp_def default_node_def word_le_nat_alt)

lemma warmup_ok: "store_ok warmup" "history_ok warmup"
  by (simp_all add: warmup_eq store_ok_def history_ok_def node_ok_def stamps_def
      evictable_count_def evictable_nodes_def)

lemma warmup_evict:
  "Evict warmup =
     (Inr (Some 0),
      \<lparr>node_store = [(1, \<lparr>history = [1, 2], is_evictable = True\<rparr>)],
       current_timestamp = 3, curr_size = 1, replacer_size = 3, lru_k = 2\<rparr>)"
  by (simp add: warmup_eq Evict_def sort_by_def evict_less_def erase_node_def AList.delete_eq)


text \<open>
  C2. In a replacer state as the operations leave it (\<open>store_ok\<close> and \<open>history_ok\<close>,
  which hold after any sequence of fewer than \<open>2^64 - 1\<close> calls on a fresh replacer, see
  \<open>reachable_replacer_ok\<close> below),
  \<open>Evict\<close> returns nothing and changes nothing when no node is evictable. Otherwise it
  returns an evictable frame whose node is preferred to every evictable node: its
  k-distance (infinite below k recorded accesses, else current timestamp minus oldest
  recorded timestamp) is larger, or equal with an oldest timestamp that is not later; no
  other evictable node is preferred to it in turn, so the victim does not depend on the
  iteration order of the store or on how the sort places equivalent entries. The node is
  erased from the store, and the evictable count and \<open>Size\<close> go down by one.
\<close>

theorem evict_lru_k:
  assumes ok: "store_ok s" and h: "history_ok s"
  shows "(evictable_nodes s = [] \<longrightarrow> Evict s = (Inr None, s)) \<and>
         (evictable_nodes s \<noteq> [] \<longrightarrow>
            (\<exists>fid node. (fid, node) \<in> set (evictable_nodes s) \<and>
               (\<forall>(g, m) \<in> set (evictable_nodes s). preferred s node m) \<and>
               (\<forall>(g, m) \<in> set (evictable_nodes s). preferred s m node \<longrightarrow> (g, m) = (fid, node)) \<and>
               Evict s = (Inr (Some fid),
                          s\<lparr>node_store := AList.delete fid (node_store s), curr_size := curr_size s - 1\<rparr>) \<and>
               map_of (node_store (snd (Evict s))) fid = None \<and>
               evictable_count (snd (Evict s)) + 1 = evictable_count s \<and>
               unat (Size (snd (Evict s))) + 1 = unat (Size s)))"
proof (intro conjI impI)
  note c = evict_candidates_ok [OF h]
  assume "evictable_nodes s = []"
  with c show "Evict s = (Inr None, s)" by (rule Evict_none)
next
  note c = evict_candidates_ok [OF h]
  assume "evictable_nodes s \<noteq> []"
  from Evict_some [OF c this] obtain fid node where mem: "(fid, node) \<in> set (evictable_nodes s)"
    and ev: "Evict s = (Inr (Some fid), s\<lparr>node_store := erase_node fid (node_store s), curr_size := curr_size s - 1\<rparr>)"
    and min: "\<forall>(g, m) \<in> set (evictable_nodes s). \<not> evict_less (entry_of s (g, m)) (entry_of s (fid, node))"
    by blast
  from mem have in_store: "(fid, node) \<in> set (node_store s)" and evn: "is_evictable node"
    by (simp_all add: evictable_nodes_mem)
  from ok have d: "distinct (map fst (node_store s))" by (simp add: store_ok_def)
  from store_ok_lookup [OF d in_store] have look: "map_of (node_store s) fid = Some node" .
  from h have cur: "current_timestamp s \<noteq> - 1" by (simp add: history_ok_def)
  have nok: "node_ok s node" using history_ok_node [OF h in_store] .
  have pref: "\<forall>(g, m) \<in> set (evictable_nodes s). preferred s node m"
  proof (clarify)
    fix g m assume gm: "(g, m) \<in> set (evictable_nodes s)"
    then have "(g, m) \<in> set (node_store s)" by (simp add: evictable_nodes_mem)
    then have mok: "node_ok s m" by (rule history_ok_node [OF h])
    from min gm have "\<not> evict_less (entry_of s (g, m)) (entry_of s (fid, node))" by auto
    from not_evict_less_preferred [OF nok mok cur this] show "preferred s node m" .
  qed
  have uniq: "\<forall>(g, m) \<in> set (evictable_nodes s). preferred s m node \<longrightarrow> (g, m) = (fid, node)"
  proof (clarify)
    fix g m assume gm: "(g, m) \<in> set (evictable_nodes s)" and p: "preferred s m node"
    from gm have in_gm: "(g, m) \<in> set (node_store s)" by (simp add: evictable_nodes_mem)
    from pref gm have "preferred s node m" by auto
    from preferred_unique [OF h in_store in_gm this p] show "g = fid \<and> m = node" by simp
  qed
  have ev': "Evict s = (Inr (Some fid), s\<lparr>node_store := AList.delete fid (node_store s), curr_size := curr_size s - 1\<rparr>)"
    using ev by (simp add: erase_node_tracked [OF look])
  note e = erase_keeps_store_ok [OF ok look evn]
  have "map_of (node_store (snd (Evict s))) fid = None" by (simp add: ev' map_of_delete_same)
  moreover have "evictable_count (snd (Evict s)) + 1 = evictable_count s" using e(1) by (simp add: ev')
  moreover have "unat (Size (snd (Evict s))) + 1 = unat (Size s)" using e(2) by (simp add: ev' Size_def)
  ultimately show "\<exists>fid node. (fid, node) \<in> set (evictable_nodes s) \<and>
               (\<forall>(g, m) \<in> set (evictable_nodes s). preferred s node m) \<and>
               (\<forall>(g, m) \<in> set (evictable_nodes s). preferred s m node \<longrightarrow> (g, m) = (fid, node)) \<and>
               Evict s = (Inr (Some fid),
                          s\<lparr>node_store := AList.delete fid (node_store s), curr_size := curr_size s - 1\<rparr>) \<and>
               map_of (node_store (snd (Evict s))) fid = None \<and>
               evictable_count (snd (Evict s)) + 1 = evictable_count s \<and>
               unat (Size (snd (Evict s))) + 1 = unat (Size s)"
    using mem pref uniq ev' by blast
qed

theorem evict_lru_k_witness:
  "store_ok warmup \<and> history_ok warmup \<and> evictable_nodes warmup \<noteq> [] \<and>
   fst (Evict warmup) = Inr (Some 0) \<and>
   preferred warmup \<lparr>history = [0], is_evictable = True\<rparr> \<lparr>history = [1, 2], is_evictable = True\<rparr> \<and>
   k_distance warmup \<lparr>history = [0], is_evictable = True\<rparr> = \<infinity> \<and>
   k_distance warmup \<lparr>history = [1, 2], is_evictable = True\<rparr> = enat 2 \<and>
   unat (Size (snd (Evict warmup))) + 1 = unat (Size warmup)"
proof -
  have ne: "evictable_nodes warmup \<noteq> []" by (simp add: warmup_eq evictable_nodes_def)
  from evict_lru_k [OF warmup_ok] ne obtain fid node where
    mem: "(fid, node) \<in> set (evictable_nodes warmup)"
    and pref: "\<forall>(g, m) \<in> set (evictable_nodes warmup). preferred warmup node m"
    and ev: "Evict warmup = (Inr (Some fid),
        warmup\<lparr>node_store := AList.delete fid (node_store warmup), curr_size := curr_size warmup - 1\<rparr>)"
    and sz: "unat (Size (snd (Evict warmup))) + 1 = unat (Size warmup)"
    by blast
  from ev have fid: "fid = 0" by (simp add: warmup_evict)
  with mem have node: "node = \<lparr>history = [0], is_evictable = True\<rparr>"
    by (simp add: warmup_eq evictable_nodes_def)
  have "(1, \<lparr>history = [1, 2], is_evictable = True\<rparr>) \<in> set (evictable_nodes warmup)"
    by (simp add: warmup_eq evictable_nodes_def)
  with pref node have "preferred warmup \<lparr>history = [0], is_evictable = True\<rparr> \<lparr>history = [1, 2], is_evictable = True\<rparr>"
    by auto
  moreover have "k_distance warmup \<lparr>history = [0], is_evictable = True\<rparr> = \<infinity>"
    and "k_distance warmup \<lparr>history = [1, 2], is_evictable = True\<rparr> = enat 2"
    by (simp_all add: k_distance_def warmup_eq)
  ultimately show ?thesis using warmup_ok ne ev fid sz by simp
qed

section \<open>RecordAccess\<close>

lemma update_fresh_append:
  "map_of store fid = None \<Longrightarrow> AList.update fid v (store @ [(fid, d)]) = store @ [(fid, v)]"
  by (induction store) (auto split: if_splits)

lemma update_fresh:
  "map_of store fid = None \<Longrightarrow> AList.update fid v store = store @ [(fid, v)]"
  by (induction store) (auto split: if_splits)

lemma in_range_not_ge:
  fixes n :: size_t
  shows "(scast (fid :: frame_id_t) :: size_t) < n \<Longrightarrow> \<not> n \<le> scast fid"
  by simp

text \<open>What \<open>RecordAccess\<close> and the spec's wording do, by case.\<close>

lemma RecordAccess_untracked:
  assumes "(scast fid :: size_t) < replacer_size s" and "map_of (node_store s) fid = None"
  shows "RecordAccess s fid =
           (Inr (), s\<lparr>node_store := node_store s @ [(fid, \<lparr>history = [current_timestamp s], is_evictable = False\<rparr>)],
                      current_timestamp := current_timestamp s + 1\<rparr>)"
  using assms
  by (simp add: RecordAccess_def push_timestamp_def default_node_def update_fresh_append not_le Let_def map_add_def)

lemma RecordAccess_tracked:
  assumes "(scast fid :: size_t) < replacer_size s" and "map_of (node_store s) fid = Some node"
    and "history node \<noteq> [] \<or> length (history node) < unat (lru_k s)"
  shows "RecordAccess s fid =
           (Inr (), s\<lparr>node_store := AList.update fid
                          (node\<lparr>history := (if length (history node) \<ge> unat (lru_k s) then tl (history node)
                                              else history node) @ [current_timestamp s]\<rparr>) (node_store s),
                      current_timestamp := current_timestamp s + 1\<rparr>)"
proof (cases "length (history node) \<ge> unat (lru_k s)")
  case True
  with assms(3) obtain t ts where h: "history node = t # ts" by (cases "history node") auto
  with assms(1,2) True show ?thesis
    by (simp add: RecordAccess_def push_timestamp_def update_conv' not_le Let_def)
next
  case False
  with assms(1,2) show ?thesis
    by (simp add: RecordAccess_def push_timestamp_def not_le Let_def)
qed

lemma spec_record_access_untracked:
  assumes "(scast fid :: size_t) < replacer_size s" and "map_of (node_store s) fid = None"
    and "0 < unat (lru_k s)"
  shows "spec_record_access s fid =
           (Inr (), s\<lparr>node_store := node_store s @ [(fid, \<lparr>history = [current_timestamp s], is_evictable = False\<rparr>)],
                      current_timestamp := current_timestamp s + 1\<rparr>)"
  using assms
  by (simp add: spec_record_access_def default_node_def update_fresh Let_def not_le)

lemma spec_record_access_tracked:
  assumes "(scast fid :: size_t) < replacer_size s" and "map_of (node_store s) fid = Some node"
    and "0 < unat (lru_k s)" and "length (history node) \<le> unat (lru_k s)"
  shows "spec_record_access s fid =
           (Inr (), s\<lparr>node_store := AList.update fid
                          (node\<lparr>history := (if length (history node) \<ge> unat (lru_k s) then tl (history node)
                                              else history node) @ [current_timestamp s]\<rparr>) (node_store s),
                      current_timestamp := current_timestamp s + 1\<rparr>)"
proof (cases "length (history node) \<ge> unat (lru_k s)")
  case True
  with assms(4) have len: "length (history node) = unat (lru_k s)" by simp
  with assms(3) obtain t ts where h: "history node = t # ts" by (cases "history node") auto
  from len have "Suc (length (history node)) - unat (lru_k s) = Suc 0" by simp
  with assms(1,2) True h show ?thesis
    by (simp add: spec_record_access_def Let_def not_le)
next
  case False
  then have "Suc (length (history node)) - unat (lru_k s) = 0" by simp
  with assms(1,2) False show ?thesis
    by (simp add: spec_record_access_def Let_def not_le)
qed

lemma list_all_update:
  "list_all (\<lambda>(f, n). P n) store \<Longrightarrow> P node' \<Longrightarrow>
   list_all (\<lambda>(f, n). P n) (AList.update fid node' store)"
  by (induction store) (auto split: if_splits)

lemma history_bounded_lookup:
  "history_bounded s \<Longrightarrow> map_of (node_store s) fid = Some node \<Longrightarrow>
   length (history node) \<le> unat (lru_k s)"
  by (auto simp: history_bounded_def list_all_iff dest!: map_of_SomeD)

lemma history_bounded_RecordAccess:
  assumes k: "0 < unat (lru_k s)" and b: "history_bounded s"
  shows "history_bounded (snd (RecordAccess s fid))"
proof (cases "replacer_size s \<le> scast fid")
  case True
  with b show ?thesis by (simp add: RecordAccess_def)
next
  case False
  then have r: "scast fid < replacer_size s" by (simp add: not_le)
  from b have all: "list_all (\<lambda>(f, n). length (history n) \<le> unat (lru_k s)) (node_store s)"
    by (simp add: history_bounded_def)
  show ?thesis
  proof (cases "map_of (node_store s) fid")
    case None
    from all k show ?thesis
      by (simp add: RecordAccess_untracked [OF r None] history_bounded_def)
  next
    case (Some node)
    have ne: "history node \<noteq> [] \<or> length (history node) < unat (lru_k s)"
      using k by (cases "history node") auto
    let ?n = "node\<lparr>history := (if length (history node) \<ge> unat (lru_k s) then tl (history node)
                                              else history node) @ [current_timestamp s]\<rparr>"
    from history_bounded_lookup [OF b Some] k have "length (history ?n) \<le> unat (lru_k s)"
      by (cases "history node") auto
    with all have "list_all (\<lambda>(f, n). length (history n) \<le> unat (lru_k s))
                     (AList.update fid ?n (node_store s))"
      by (rule list_all_update)
    then show ?thesis
      by (simp add: RecordAccess_tracked [OF r Some ne] history_bounded_def)
  qed
qed

lemma history_bounded_SetEvictable:
  assumes b: "history_bounded s"
  shows "history_bounded (snd (SetEvictable s fid flag))"
proof (cases "map_of (node_store s) fid")
  case None
  with b show ?thesis by (simp add: SetEvictable_def)
next
  case (Some node)
  from b have all: "list_all (\<lambda>(f, n). length (history n) \<le> unat (lru_k s)) (node_store s)"
    by (simp add: history_bounded_def)
  from history_bounded_lookup [OF b Some]
  have "length (history (node\<lparr>is_evictable := flag\<rparr>)) \<le> unat (lru_k s)" by simp
  with all have u: "list_all (\<lambda>(f, n). length (history n) \<le> unat (lru_k s))
                   (AList.update fid (node\<lparr>is_evictable := flag\<rparr>) (node_store s))"
    by (rule list_all_update)
  have "snd (SetEvictable s fid flag) = s \<or>
        (\<exists>c. snd (SetEvictable s fid flag) =
           s\<lparr>curr_size := c,
             node_store := AList.update fid (node\<lparr>is_evictable := flag\<rparr>) (node_store s)\<rparr>)"
    using Some by (auto simp: SetEvictable_def)
  then show ?thesis
  proof
    assume "snd (SetEvictable s fid flag) = s"
    with b show ?thesis by simp
  next
    assume "\<exists>c. snd (SetEvictable s fid flag) =
           s\<lparr>curr_size := c,
             node_store := AList.update fid (node\<lparr>is_evictable := flag\<rparr>) (node_store s)\<rparr>"
    then obtain c where "snd (SetEvictable s fid flag) =
           s\<lparr>curr_size := c,
             node_store := AList.update fid (node\<lparr>is_evictable := flag\<rparr>) (node_store s)\<rparr>"
      by blast
    with u show ?thesis by (simp add: history_bounded_def)
  qed
qed

lemma history_bounded_delete:
  assumes "history_bounded s"
  shows "history_bounded (s\<lparr>node_store := AList.delete fid (node_store s), curr_size := c\<rparr>)"
  using assms by (auto simp: history_bounded_def list_all_iff AList.delete_eq)

lemma history_bounded_Remove:
  assumes b: "history_bounded s"
  shows "history_bounded (snd (Remove s fid))"
  using b history_bounded_delete [OF b, where fid = fid and c = "curr_size s - 1"]
  by (auto simp: Remove_def erase_node_eq_delete split: option.splits)

lemma history_bounded_Evict:
  assumes b: "history_bounded s"
  shows "history_bounded (snd (Evict s))"
  using b history_bounded_delete [OF b, where c = "curr_size s - 1"]
  by (auto simp: Evict_def erase_node_eq_delete Let_def split: sum.splits)

lemma lru_k_apply_op: "lru_k (apply_op s op) = lru_k s"
  by (cases op)
    (auto simp: RecordAccess_def push_timestamp_def SetEvictable_def Remove_def Evict_def Let_def
      split: option.splits list.splits sum.splits)

lemma history_bounded_apply_op:
  "0 < unat (lru_k s) \<Longrightarrow> history_bounded s \<Longrightarrow> history_bounded (apply_op s op)"
  by (cases op)
    (simp_all add: history_bounded_RecordAccess history_bounded_SetEvictable history_bounded_Evict
      history_bounded_Remove)

lemma history_bounded_run_ops:
  "0 < unat (lru_k s) \<Longrightarrow> history_bounded s \<Longrightarrow> history_bounded (run_ops s ops)"
  unfolding run_ops_def
  by (induction ops arbitrary: s) (simp_all add: history_bounded_apply_op lru_k_apply_op)

text \<open>Every state that calls on a fresh replacer with k at least 1 can reach is bounded.\<close>

lemma reachable_history_bounded:
  assumes "0 < unat k"
  shows "history_bounded (run_ops (LRUKReplacer num_frames k) ops)"
proof -
  have "history_bounded (LRUKReplacer num_frames k)" by (simp add: history_bounded_def LRUKReplacer_def)
  moreover from assms have "0 < unat (lru_k (LRUKReplacer num_frames k))" by (simp add: LRUKReplacer_def)
  ultimately show ?thesis by (rule history_bounded_run_ops [rotated])
qed

text \<open>
  C4. For a replacer with k at least 1, as the spec constructs it, every state the
  operations can leave (no history longer than k, see \<open>reachable_history_bounded\<close>) and
  every frame id below \<open>num_frames\<close>: \<open>RecordAccess\<close> (pop the front of a full history,
  then append; create the node first for an unknown frame) and the spec's wording (append,
  then trim the history to at most k entries) return the same outcome and leave the same
  state, in particular the same node store, in which again no history is longer than k.
\<close>

theorem record_access_refines_spec:
  assumes "(scast fid :: size_t) < replacer_size s" and "0 < unat (lru_k s)"
    and "history_bounded s"
  shows "RecordAccess s fid = spec_record_access s fid \<and>
         node_store (snd (RecordAccess s fid)) = node_store (snd (spec_record_access s fid)) \<and>
         history_bounded (snd (RecordAccess s fid))"
proof (cases "map_of (node_store s) fid")
  case None
  from RecordAccess_untracked [OF assms(1) None] spec_record_access_untracked [OF assms(1) None assms(2)]
    history_bounded_RecordAccess [OF assms(2,3), of fid]
  show ?thesis by simp
next
  case (Some node)
  have "history node \<noteq> [] \<or> length (history node) < unat (lru_k s)"
    using assms(2) by (cases "history node") auto
  from RecordAccess_tracked [OF assms(1) Some this]
    spec_record_access_tracked [OF assms(1) Some assms(2) history_bounded_lookup [OF assms(3) Some]]
    history_bounded_RecordAccess [OF assms(2,3), of fid]
  show ?thesis by simp
qed

theorem record_access_refines_spec_witness:
  "(scast (1 :: frame_id_t) :: size_t) < replacer_size warmup \<and> 0 < unat (lru_k warmup) \<and>
   history_bounded warmup \<and>
   RecordAccess warmup 1 = spec_record_access warmup 1 \<and>
   node_store (snd (RecordAccess warmup 1)) =
     [(0, \<lparr>history = [0], is_evictable = True\<rparr>), (1, \<lparr>history = [2, 3], is_evictable = True\<rparr>)] \<and>
   history_bounded (snd (RecordAccess warmup 1))"
proof -
  have a: "(scast (1 :: frame_id_t) :: size_t) < replacer_size warmup" by (simp add: warmup_eq)
  have b: "0 < unat (lru_k warmup)" by (simp add: warmup_eq)
  have h: "history_bounded warmup" by (simp add: warmup_eq history_bounded_def)
  have c: "node_store (snd (spec_record_access warmup 1)) =
     [(0, \<lparr>history = [0], is_evictable = True\<rparr>), (1, \<lparr>history = [2, 3], is_evictable = True\<rparr>)]"
    by (simp add: warmup_eq spec_record_access_def Let_def word_le_nat_alt)
  from record_access_refines_spec [OF a b h]
  have e: "RecordAccess warmup 1 = spec_record_access warmup 1"
    and hb: "history_bounded (snd (RecordAccess warmup 1))" by blast+
  have n: "node_store (snd (RecordAccess warmup 1)) =
     [(0, \<lparr>history = [0], is_evictable = True\<rparr>), (1, \<lparr>history = [2, 3], is_evictable = True\<rparr>)]"
    unfolding e by (rule c)
  from a b h e n hb show ?thesis by (intro conjI)
qed

section \<open>SetEvictable and Remove\<close>

text \<open>
  C10. For a tracked frame id below \<open>num_frames\<close>, \<open>SetEvictable\<close> with the flag the node
  already has returns normally and changes nothing: the whole replacer state, hence the
  node store, the node and \<open>Size\<close>, is as before.
\<close>

theorem set_evictable_idempotent:
  assumes "(scast fid :: size_t) < replacer_size s" and "map_of (node_store s) fid = Some node"
  shows "SetEvictable s fid (is_evictable node) = (Inr (), s) \<and>
         node_store (snd (SetEvictable s fid (is_evictable node))) = node_store s \<and>
         map_of (node_store (snd (SetEvictable s fid (is_evictable node)))) fid = Some node \<and>
         Size (snd (SetEvictable s fid (is_evictable node))) = Size s"
  using assms by (simp add: SetEvictable_def not_le)

theorem set_evictable_idempotent_witness:
  "(scast (1 :: frame_id_t) :: size_t) < replacer_size warmup \<and>
   map_of (node_store warmup) 1 = Some \<lparr>history = [1, 2], is_evictable = True\<rparr> \<and>
   SetEvictable warmup 1 True = (Inr (), warmup) \<and>
   Size (snd (SetEvictable warmup 1 True)) = 2"
proof -
  have a: "(scast (1 :: frame_id_t) :: size_t) < replacer_size warmup" by (simp add: warmup_eq)
  have b: "map_of (node_store warmup) 1 = Some \<lparr>history = [1, 2], is_evictable = True\<rparr>"
    by (simp add: warmup_eq)
  have c: "Size warmup = 2" by (simp add: warmup_eq Size_def)
  from set_evictable_idempotent [OF a b] a b c show ?thesis by simp
qed

text \<open>
  C8. For a frame id below \<open>num_frames\<close>, \<open>Remove\<close> returns normally with the state
  unchanged when the frame is not tracked; throws \<open>std::logic_error\<close> (the spec's
  InvalidState) with the state unchanged when the frame is tracked and not evictable; and
  otherwise erases the node and decrements \<open>curr_size_\<close>, which in a state whose
  \<open>curr_size_\<close> counts the evictable nodes takes both the size and the count down by one.
\<close>

theorem remove_cases:
  assumes "(scast fid :: size_t) < replacer_size s"
  shows "(map_of (node_store s) fid = None \<longrightarrow> Remove s fid = (Inr (), s)) \<and>
         (\<forall>node. map_of (node_store s) fid = Some node \<and> \<not> is_evictable node \<longrightarrow>
            Remove s fid = (Inl LogicError, s)) \<and>
         (\<forall>node. map_of (node_store s) fid = Some node \<and> is_evictable node \<longrightarrow>
            Remove s fid =
              (Inr (), s\<lparr>node_store := AList.delete fid (node_store s), curr_size := curr_size s - 1\<rparr>) \<and>
            map_of (node_store (snd (Remove s fid))) fid = None \<and>
            Size (snd (Remove s fid)) = Size s - 1 \<and>
            (store_ok s \<longrightarrow>
               unat (Size (snd (Remove s fid))) + 1 = unat (Size s) \<and>
               evictable_count (snd (Remove s fid)) + 1 = evictable_count s))"
proof (intro conjI allI impI)
  assume "map_of (node_store s) fid = None"
  with assms show "Remove s fid = (Inr (), s)" by (simp add: Remove_def not_le)
next
  fix node assume "map_of (node_store s) fid = Some node \<and> \<not> is_evictable node"
  with assms show "Remove s fid = (Inl LogicError, s)" by (simp add: Remove_def not_le)
next
  fix node assume a: "map_of (node_store s) fid = Some node \<and> is_evictable node"
  with assms show r: "Remove s fid =
      (Inr (), s\<lparr>node_store := AList.delete fid (node_store s), curr_size := curr_size s - 1\<rparr>)"
    by (simp add: Remove_def not_le erase_node_tracked)
  show "map_of (node_store (snd (Remove s fid))) fid = None" by (simp add: r map_of_delete_same)
  show "Size (snd (Remove s fid)) = Size s - 1" by (simp add: r Size_def)
  {
    assume ok: "store_ok s"
    from a have look: "map_of (node_store s) fid = Some node" and ev: "is_evictable node" by simp_all
    note e = erase_keeps_store_ok [OF ok look ev]
    from e(2) show "unat (Size (snd (Remove s fid))) + 1 = unat (Size s)" by (simp add: r Size_def)
    from e(1) show "evictable_count (snd (Remove s fid)) + 1 = evictable_count s" by (simp add: r)
  }
qed

lemma pinned_one_eq:
  "pinned_one =
     \<lparr>node_store = [(2, \<lparr>history = [0], is_evictable = False\<rparr>)],
      current_timestamp = 1, curr_size = 0, replacer_size = 3, lru_k = 2\<rparr>"
  by (simp add: pinned_one_def run_ops_def LRUKReplacer_def RecordAccess_def
      push_timestamp_def default_node_def word_le_nat_alt)

theorem remove_cases_witness:
  "(scast (2 :: frame_id_t) :: size_t) < replacer_size warmup \<and>
   map_of (node_store warmup) 2 = None \<and> Remove warmup 2 = (Inr (), warmup) \<and>
   (scast (2 :: frame_id_t) :: size_t) < replacer_size pinned_one \<and>
   map_of (node_store pinned_one) 2 = Some \<lparr>history = [0], is_evictable = False\<rparr> \<and>
   Remove pinned_one 2 = (Inl LogicError, pinned_one) \<and>
   (scast (1 :: frame_id_t) :: size_t) < replacer_size warmup \<and>
   map_of (node_store warmup) 1 = Some \<lparr>history = [1, 2], is_evictable = True\<rparr> \<and>
   store_ok warmup \<and>
   node_store (snd (Remove warmup 1)) = [(0, \<lparr>history = [0], is_evictable = True\<rparr>)] \<and>
   Size (snd (Remove warmup 1)) = 1 \<and>
   evictable_count (snd (Remove warmup 1)) + 1 = evictable_count warmup"
proof -
  have a2: "(scast (2 :: frame_id_t) :: size_t) < replacer_size warmup"
    and a1: "(scast (1 :: frame_id_t) :: size_t) < replacer_size warmup"
    and p2: "(scast (2 :: frame_id_t) :: size_t) < replacer_size pinned_one"
    by (simp_all add: warmup_eq pinned_one_eq)
  have n2: "map_of (node_store warmup) 2 = None"
    and n1: "map_of (node_store warmup) 1 = Some \<lparr>history = [1, 2], is_evictable = True\<rparr>"
    and np: "map_of (node_store pinned_one) 2 = Some \<lparr>history = [0], is_evictable = False\<rparr>"
    by (simp_all add: warmup_eq pinned_one_eq)
  have d: "AList.delete 1 (node_store warmup) = [(0, \<lparr>history = [0], is_evictable = True\<rparr>)]"
    and sz: "Size warmup = 2"
    by (simp_all add: warmup_eq AList.delete_eq Size_def)
  from remove_cases [OF a2] n2 have r2: "Remove warmup 2 = (Inr (), warmup)" by simp
  from remove_cases [OF p2] np have rp: "Remove pinned_one 2 = (Inl LogicError, pinned_one)" by simp
  have "map_of (node_store warmup) 1 = Some \<lparr>history = [1, 2], is_evictable = True\<rparr> \<and>
        is_evictable \<lparr>history = [1, 2], is_evictable = True\<rparr>"
    using n1 by simp
  with remove_cases [OF a1] warmup_ok(1)
  have r1: "Remove warmup 1 =
      (Inr (), warmup\<lparr>node_store := AList.delete 1 (node_store warmup), curr_size := curr_size warmup - 1\<rparr>)"
    and s1: "Size (snd (Remove warmup 1)) = Size warmup - 1"
    and c1: "evictable_count (snd (Remove warmup 1)) + 1 = evictable_count warmup"
    by blast+
  from r1 d have "node_store (snd (Remove warmup 1)) = [(0, \<lparr>history = [0], is_evictable = True\<rparr>)]"
    by simp
  moreover from s1 sz have "Size (snd (Remove warmup 1)) = 1" by simp
  ultimately show ?thesis using a2 a1 p2 n2 n1 np r2 rp c1 warmup_ok(1) by simp
qed

section \<open>Size accounting\<close>

lemma ev_count_append:
  "length (filter (\<lambda>(f, n). is_evictable n) (store @ [(fid, node)]))
     = length (filter (\<lambda>(f, n). is_evictable n) store) + (if is_evictable node then 1 else 0)"
  by simp

lemma store_ok_RecordAccess:
  assumes ok: "store_ok s"
  shows "store_ok (snd (RecordAccess s fid))"
proof -
  from ok have d: "distinct (map fst (node_store s))" and c: "unat (curr_size s) = evictable_count s"
    by (simp_all add: store_ok_def)
  consider (range) "replacer_size s \<le> scast fid"
    | (fault) node where "\<not> replacer_size s \<le> scast fid" "map_of (node_store s) fid = Some node"
        "\<not> (history node \<noteq> [] \<or> length (history node) < unat (lru_k s))"
    | (new) "scast fid < replacer_size s" "map_of (node_store s) fid = None"
    | (known) node where "scast fid < replacer_size s" "map_of (node_store s) fid = Some node"
        "history node \<noteq> [] \<or> length (history node) < unat (lru_k s)"
  proof (cases "replacer_size s \<le> scast fid")
    case True
    then show ?thesis by (rule range)
  next
    case False
    then have r: "scast fid < replacer_size s" by (simp add: not_le)
    show ?thesis
    proof (cases "map_of (node_store s) fid")
      case None
      with r show ?thesis by (rule new)
    next
      case (Some node)
      show ?thesis
      proof (cases "history node \<noteq> [] \<or> length (history node) < unat (lru_k s)")
        case True
        with r Some show ?thesis by (rule known)
      next
        case nh: False
        with False Some show ?thesis by (rule fault)
      qed
    qed
  qed
  then show ?thesis
  proof cases
    case range
    with ok show ?thesis by (simp add: RecordAccess_def)
  next
    case fault
    with ok show ?thesis by (simp add: RecordAccess_def)
  next
    case new
    from new(2) have "fid \<notin> fst ` set (node_store s)" by (simp add: map_of_eq_None_iff)
    with d c show ?thesis
      by (simp add: RecordAccess_untracked [OF new] store_ok_def evictable_count_def evictable_nodes_def)
  next
    case known
    let ?n = "node\<lparr>history := (if length (history node) \<ge> unat (lru_k s) then tl (history node)
                                              else history node) @ [current_timestamp s]\<rparr>"
    from ev_count_update [OF d known(2), of ?n]
    have "length (filter (\<lambda>(f, n). is_evictable n) (AList.update fid ?n (node_store s)))
            = length (filter (\<lambda>(f, n). is_evictable n) (node_store s))"
      by (simp split: if_splits)
    moreover from d have "distinct (map fst (AList.update fid ?n (node_store s)))" by (rule distinct_update)
    ultimately show ?thesis using c
      by (simp add: RecordAccess_tracked [OF known] store_ok_def evictable_count_def evictable_nodes_def)
  qed
qed

lemma evictable_count_bound:
  assumes "distinct (map fst (node_store s))"
  shows "evictable_count s \<le> 2 ^ 32"
proof -
  have "evictable_count s \<le> length (node_store s)"
    by (simp add: evictable_count_def evictable_nodes_def)
  also have "\<dots> \<le> 2 ^ 32" using assms by (rule length_distinct_keys)
  finally show ?thesis .
qed

lemma size_t_succ_unat:
  fixes c :: size_t
  assumes "unat c \<le> 2 ^ 32"
  shows "unat (c + 1) = unat c + 1"
proof -
  have "unat c + unat (1 :: size_t) < 2 ^ LENGTH(64)" using assms by simp
  then have "unat (c + 1) = unat c + unat (1 :: size_t)" by (simp only: unat_add_lem)
  then show ?thesis by simp
qed

lemma store_ok_SetEvictable:
  assumes ok: "store_ok s"
  shows "store_ok (snd (SetEvictable s fid b))"
proof (cases "\<not> replacer_size s \<le> scast fid \<and> (\<exists>node. map_of (node_store s) fid = Some node \<and> b \<noteq> is_evictable node)")
  case False
  with ok show ?thesis by (auto simp: SetEvictable_def split: option.splits)
next
  case True
  then obtain node where r: "\<not> replacer_size s \<le> scast fid" and look: "map_of (node_store s) fid = Some node"
    and flip: "b \<noteq> is_evictable node" by blast
  from ok have d: "distinct (map fst (node_store s))" and c: "unat (curr_size s) = evictable_count s"
    by (simp_all add: store_ok_def)
  let ?store = "AList.update fid (node\<lparr>is_evictable := b\<rparr>) (node_store s)"
  let ?c = "if b then curr_size s + 1 else curr_size s - 1"
  have res: "snd (SetEvictable s fid b) = s\<lparr>curr_size := ?c, node_store := ?store\<rparr>"
    using r look flip by (simp add: SetEvictable_def)
  have d': "distinct (map fst ?store)" using d by (rule distinct_update)
  note cnt = ev_count_update [OF d look, of "node\<lparr>is_evictable := b\<rparr>"]
  have "unat ?c = length (filter (\<lambda>(f, n). is_evictable n) ?store)"
  proof (cases b)
    case True
    with flip have ne: "\<not> is_evictable node" by simp
    from cnt True ne have "length (filter (\<lambda>(f, n). is_evictable n) ?store) = evictable_count s + 1"
      by (simp add: evictable_count_def evictable_nodes_def)
    moreover have "unat (curr_size s + 1) = unat (curr_size s) + 1"
      using evictable_count_bound [OF d] c by (intro size_t_succ_unat) simp
    ultimately show ?thesis using True c by simp
  next
    case False
    with flip have e: "is_evictable node" by simp
    from cnt False e have "length (filter (\<lambda>(f, n). is_evictable n) ?store) + 1 = evictable_count s"
      by (simp add: evictable_count_def evictable_nodes_def)
    moreover from this c have "0 < unat (curr_size s)" by simp
    then have "unat (curr_size s - 1) + 1 = unat (curr_size s)" by (rule size_t_pred_unat)
    ultimately show ?thesis using False c by simp
  qed
  with d' show ?thesis by (simp add: res store_ok_def evictable_count_def evictable_nodes_def)
qed

lemma store_ok_Remove:
  assumes ok: "store_ok s"
  shows "store_ok (snd (Remove s fid))"
proof (cases "\<not> replacer_size s \<le> scast fid \<and> (\<exists>node. map_of (node_store s) fid = Some node \<and> is_evictable node)")
  case False
  with ok show ?thesis by (auto simp: Remove_def split: option.splits)
next
  case True
  then obtain node where r: "\<not> replacer_size s \<le> scast fid" and look: "map_of (node_store s) fid = Some node"
    and ev: "is_evictable node" by blast
  have "snd (Remove s fid) = s\<lparr>node_store := AList.delete fid (node_store s), curr_size := curr_size s - 1\<rparr>"
    using r look ev by (simp add: Remove_def erase_node_tracked)
  with erase_keeps_store_ok(3) [OF ok look ev] show ?thesis by simp
qed

lemma store_ok_Evict:
  assumes ok: "store_ok s"
  shows "store_ok (snd (Evict s))"
proof (cases "evict_candidates s (node_store s)")
  case (Inl e)
  with ok show ?thesis by (simp add: Evict_def)
next
  case (Inr l)
  from evict_candidates_Inr [OF Inr] have l: "l = map (entry_of s) (evictable_nodes s)"
    by (simp add: evictable_nodes_def)
  show ?thesis
  proof (cases "evictable_nodes s = []")
    case True
    with Inr l have "Evict s = (Inr None, s)" by (intro Evict_none) simp_all
    with ok show ?thesis by simp
  next
    case False
    from Inr l have c: "evict_candidates s (node_store s) = Inr (map (entry_of s) (evictable_nodes s))" by simp
    from Evict_some [OF c False] obtain fid node where mem: "(fid, node) \<in> set (evictable_nodes s)"
      and ev: "Evict s = (Inr (Some fid), s\<lparr>node_store := erase_node fid (node_store s), curr_size := curr_size s - 1\<rparr>)"
      by blast
    from mem have in_store: "(fid, node) \<in> set (node_store s)" and evn: "is_evictable node"
      by (simp_all add: evictable_nodes_mem)
    from ok have d: "distinct (map fst (node_store s))" by (simp add: store_ok_def)
    from store_ok_lookup [OF d in_store] have look: "map_of (node_store s) fid = Some node" .
    from erase_keeps_store_ok(3) [OF ok look evn] show ?thesis
      by (simp add: ev erase_node_tracked [OF look])
  qed
qed

lemma store_ok_apply_op: "store_ok s \<Longrightarrow> store_ok (apply_op s op)"
  by (cases op) (simp_all add: store_ok_RecordAccess store_ok_SetEvictable store_ok_Evict store_ok_Remove)

lemma store_ok_run_ops: "store_ok s \<Longrightarrow> store_ok (run_ops s ops)"
  unfolding run_ops_def by (induction ops arbitrary: s) (simp_all add: store_ok_apply_op)

lemma store_ok_fresh: "store_ok (LRUKReplacer num_frames k)"
  by (simp add: store_ok_def LRUKReplacer_def evictable_count_def evictable_nodes_def)

text \<open>
  C5. After any sequence of \<open>RecordAccess\<close>, \<open>SetEvictable\<close>, \<open>Evict\<close> and \<open>Remove\<close> calls
  on a fresh replacer (calls that throw included), \<open>Size\<close> is the number of nodes in the
  node store whose \<open>is_evictable\<close> flag is true.
\<close>

theorem size_accounting:
  "unat (Size (run_ops (LRUKReplacer num_frames k) ops)) =
     length (filter (\<lambda>(fid, node). is_evictable node) (node_store (run_ops (LRUKReplacer num_frames k) ops)))"
  using store_ok_run_ops [OF store_ok_fresh, of num_frames k ops]
  by (simp add: store_ok_def Size_def evictable_count_def evictable_nodes_def)

theorem size_accounting_witness:
  "unat (Size (run_ops (LRUKReplacer 3 2) warmup_ops)) = 2 \<and>
   length (filter (\<lambda>(fid, node). is_evictable node) (node_store (run_ops (LRUKReplacer 3 2) warmup_ops))) = 2"
proof -
  have "node_store (run_ops (LRUKReplacer 3 2) warmup_ops) =
          [(0, \<lparr>history = [0], is_evictable = True\<rparr>), (1, \<lparr>history = [1, 2], is_evictable = True\<rparr>)]"
    using warmup_eq by (simp add: warmup_def)
  then have "length (filter (\<lambda>(fid, node). is_evictable node) (node_store (run_ops (LRUKReplacer 3 2) warmup_ops))) = 2"
    by simp
  with size_accounting [of 3 2 warmup_ops] show ?thesis by simp
qed

section \<open>The replacer invariants hold in every reachable state\<close>

lemma node_ok_step:
  assumes "node_ok s n" and "current_timestamp s \<noteq> - 1"
  shows "node_ok (s\<lparr>node_store := st, current_timestamp := current_timestamp s + 1\<rparr>) n"
proof -
  from assms(2) have "current_timestamp s < current_timestamp s + 1" by (rule size_t_less_succ)
  with assms(1) show ?thesis by (auto simp: node_ok_def list_all_iff)
qed

lemma history_ok_stamps_below:
  "history_ok s \<Longrightarrow> t \<in> set (stamps (node_store s)) \<Longrightarrow> t < current_timestamp s"
  by (auto simp: history_ok_def node_ok_def list_all_iff set_stamps)

lemma history_ok_delete:
  assumes "history_ok s"
  shows "history_ok (s\<lparr>node_store := AList.delete fid (node_store s), curr_size := c\<rparr>)"
proof -
  from assms have "list_all (\<lambda>(f, n). node_ok s n) (AList.delete fid (node_store s))"
    by (auto simp: history_ok_def list_all_iff AList.delete_eq)
  then have "list_all (\<lambda>(f, n). node_ok (s\<lparr>node_store := AList.delete fid (node_store s), curr_size := c\<rparr>) n)
               (AList.delete fid (node_store s))"
    by (simp add: node_ok_def)
  moreover from assms have "distinct (stamps (AList.delete fid (node_store s)))"
    by (simp add: history_ok_def distinct_stamps_delete)
  ultimately show ?thesis using assms by (simp add: history_ok_def)
qed

lemma history_ok_RecordAccess:
  assumes h: "history_ok s" and nxt: "current_timestamp s + 1 \<noteq> - 1"
  shows "history_ok (snd (RecordAccess s fid))"
proof -
  let ?c = "current_timestamp s"
  from h have all: "list_all (\<lambda>(f, n). node_ok s n) (node_store s)"
    and dist: "distinct (stamps (node_store s))" and cur: "?c \<noteq> - 1"
    by (simp_all add: history_ok_def)
  have fresh: "?c \<notin> set (stamps (node_store s))"
    using history_ok_stamps_below [OF h, of ?c] by auto
  have lt: "?c < ?c + 1" using cur by (rule size_t_less_succ)
  have step: "\<And>st. list_all (\<lambda>(f, n). node_ok s n) (node_store s) \<Longrightarrow>
      list_all (\<lambda>(f, n). node_ok (s\<lparr>node_store := st, current_timestamp := ?c + 1\<rparr>) n) (node_store s)"
    using node_ok_step [OF _ cur] by (auto simp: list_all_iff)
  show ?thesis
  proof (cases "replacer_size s \<le> scast fid")
    case True
    with h show ?thesis by (simp add: RecordAccess_def)
  next
    case False
    then have r: "scast fid < replacer_size s" by (simp add: not_le)
    show ?thesis
    proof (cases "map_of (node_store s) fid")
      case None
      let ?s' = "s\<lparr>node_store := node_store s @ [(fid, \<lparr>history = [?c], is_evictable = False\<rparr>)],
                   current_timestamp := ?c + 1\<rparr>"
      have "node_ok ?s' \<lparr>history = [?c], is_evictable = False\<rparr>" using lt by (simp add: node_ok_def)
      moreover have "list_all (\<lambda>(f, n). node_ok ?s' n) (node_store s)" using step [OF all] .
      moreover have "distinct (stamps (node_store s @ [(fid, \<lparr>history = [?c], is_evictable = False\<rparr>)]))"
        using dist fresh by simp
      ultimately show ?thesis using nxt
        by (simp add: RecordAccess_untracked [OF r None] history_ok_def)
    next
      case (Some node)
      from all map_of_SomeD [OF Some] have nok: "node_ok s node" by (auto simp: list_all_iff)
      then have ne: "history node \<noteq> []" by (simp add: node_ok_def)
      let ?h = "(if unat (lru_k s) \<le> length (history node) then tl (history node) else history node) @ [?c]"
      let ?n = "node\<lparr>history := ?h\<rparr>"
      let ?st = "AList.update fid ?n (node_store s)"
      let ?s' = "s\<lparr>node_store := ?st, current_timestamp := ?c + 1\<rparr>"
      have sub: "set (history node) \<subseteq> set (stamps (node_store s))"
        using map_of_SomeD [OF Some] by (auto simp: set_stamps)
      have tl_sub: "set (tl (history node)) \<subseteq> set (history node)"
        using ne by (cases "history node") auto
      have dh: "distinct (history node)"
        using dist map_of_SomeD [OF Some] by (auto simp: stamps_def dest!: split_list)
      then have dtl: "distinct (tl (history node))" by (rule distinct_tl)
      have cn: "?c \<notin> set (history node)" using fresh sub by blast
      have d1: "distinct ?h" using dh dtl cn tl_sub by auto
      have s1: "set ?h \<subseteq> set (history node) \<union> {?c}" using tl_sub by auto
      have dst: "distinct (stamps ?st)"
        using distinct_stamps_update [OF dist Some, of ?n ?c] d1 s1 fresh by simp
      have "\<And>t. t \<in> set (history node) \<Longrightarrow> t < ?c + 1"
        using nok lt by (auto simp: node_ok_def list_all_iff)
      then have "list_all (\<lambda>t. t < ?c + 1) ?h"
        using lt tl_sub by (auto simp: list_all_iff)
      then have "node_ok ?s' ?n" by (simp add: node_ok_def)
      moreover have "list_all (\<lambda>(f, n). node_ok ?s' n) (node_store s)" using step [OF all] .
      ultimately have "list_all (\<lambda>(f, n). node_ok ?s' n) ?st" by (intro list_all_update) simp_all
      with dst nxt show ?thesis
        by (simp add: RecordAccess_tracked [OF r Some disjI1 [OF ne]] history_ok_def)
    qed
  qed
qed

lemma history_ok_SetEvictable:
  assumes h: "history_ok s"
  shows "history_ok (snd (SetEvictable s fid b))"
proof (cases "\<not> replacer_size s \<le> scast fid \<and> (\<exists>node. map_of (node_store s) fid = Some node \<and> b \<noteq> is_evictable node)")
  case False
  with h show ?thesis by (auto simp: SetEvictable_def split: option.splits)
next
  case True
  then obtain node where r: "\<not> replacer_size s \<le> scast fid" and look: "map_of (node_store s) fid = Some node"
    and flip: "b \<noteq> is_evictable node" by blast
  let ?st = "AList.update fid (node\<lparr>is_evictable := b\<rparr>) (node_store s)"
  let ?c = "if b then curr_size s + 1 else curr_size s - 1"
  have res: "snd (SetEvictable s fid b) = s\<lparr>curr_size := ?c, node_store := ?st\<rparr>"
    using r look flip by (simp add: SetEvictable_def)
  from h have all: "list_all (\<lambda>(f, n). node_ok s n) (node_store s)"
    and dist: "distinct (stamps (node_store s))" and cur: "current_timestamp s \<noteq> - 1"
    by (simp_all add: history_ok_def)
  from all map_of_SomeD [OF look] have "node_ok s node" by (auto simp: list_all_iff)
  then have "node_ok s (node\<lparr>is_evictable := b\<rparr>)" by (simp add: node_ok_def)
  with all have "list_all (\<lambda>(f, n). node_ok s n) ?st" by (intro list_all_update) simp_all
  then have "list_all (\<lambda>(f, n). node_ok (s\<lparr>curr_size := ?c, node_store := ?st\<rparr>) n) ?st"
    by (simp add: node_ok_def)
  moreover have "stamps ?st = stamps (node_store s)"
    by (rule stamps_update_same_history [OF look]) simp
  ultimately show ?thesis using dist cur by (simp add: res history_ok_def)
qed

lemma history_ok_Remove:
  assumes h: "history_ok s"
  shows "history_ok (snd (Remove s fid))"
  using h history_ok_delete [OF h, where fid = fid and c = "curr_size s - 1"]
  by (auto simp: Remove_def erase_node_eq_delete split: option.splits)

lemma history_ok_Evict:
  assumes h: "history_ok s"
  shows "history_ok (snd (Evict s))"
  using h history_ok_delete [OF h, where c = "curr_size s - 1"]
  by (auto simp: Evict_def erase_node_eq_delete Let_def split: sum.splits)

lemma timestamp_RecordAccess:
  "current_timestamp (snd (RecordAccess s fid)) = current_timestamp s \<or>
   current_timestamp (snd (RecordAccess s fid)) = current_timestamp s + 1"
  by (auto simp: RecordAccess_def push_timestamp_def Let_def split: option.splits list.splits)

lemma timestamp_other:
  "current_timestamp (snd (SetEvictable s fid b)) = current_timestamp s"
  "current_timestamp (snd (Remove s fid)) = current_timestamp s"
  "current_timestamp (snd (Evict s)) = current_timestamp s"
  by (auto simp: SetEvictable_def Remove_def Evict_def Let_def split: option.splits sum.splits)

lemma size_t_succ_bound:
  fixes c :: size_t
  shows "unat (c + 1) \<le> unat c + 1"
  by (metis Suc_eq_plus1 add.commute le_SucI le_refl unatSuc unat_0 unsigned_eq_0_iff zero_le add.right_neutral le_add1 trans_le_add2)

lemma size_t_not_max:
  fixes c :: size_t
  assumes "unat c < unat (- 1 :: size_t)"
  shows "c \<noteq> - 1"
proof
  assume "c = - 1"
  with assms show False by (simp only: less_irrefl)
qed

lemma history_ok_apply_op:
  assumes h: "history_ok s" and b: "unat (current_timestamp s) + 1 < unat (- 1 :: size_t)"
  shows "history_ok (apply_op s op) \<and>
         unat (current_timestamp (apply_op s op)) \<le> unat (current_timestamp s) + 1"
proof (cases op)
  case (OpRecordAccess fid)
  have "unat (current_timestamp s + 1) < unat (- 1 :: size_t)"
    using size_t_succ_bound [of "current_timestamp s"] b by linarith
  then have "current_timestamp s + 1 \<noteq> - 1" by (rule size_t_not_max)
  from history_ok_RecordAccess [OF h this, of fid] timestamp_RecordAccess [of s fid]
    size_t_succ_bound [of "current_timestamp s"] OpRecordAccess
  show ?thesis by auto
next
  case (OpSetEvictable fid flag)
  with history_ok_SetEvictable [OF h, of fid flag] show ?thesis by (simp add: timestamp_other)
next
  case OpEvict
  with history_ok_Evict [OF h] show ?thesis by (simp add: timestamp_other)
next
  case (OpRemove fid)
  with history_ok_Remove [OF h, of fid] show ?thesis by (simp add: timestamp_other)
qed

lemma history_ok_run_ops:
  "history_ok s \<Longrightarrow> unat (current_timestamp s) + length ops < unat (- 1 :: size_t) \<Longrightarrow>
   history_ok (run_ops s ops) \<and>
   unat (current_timestamp (run_ops s ops)) \<le> unat (current_timestamp s) + length ops"
proof (induction ops arbitrary: s)
  case Nil
  then show ?case by (simp add: run_ops_def)
next
  case (Cons op ops)
  from Cons.prems(2) have b: "unat (current_timestamp s) + 1 < unat (- 1 :: size_t)" by simp
  from history_ok_apply_op [OF Cons.prems(1) b, of op]
  have h': "history_ok (apply_op s op)"
    and t': "unat (current_timestamp (apply_op s op)) \<le> unat (current_timestamp s) + 1" by simp_all
  from t' Cons.prems(2)
  have "unat (current_timestamp (apply_op s op)) + length ops < unat (- 1 :: size_t)" by simp
  from Cons.IH [OF h' this] t' show ?case by (simp add: run_ops_def)
qed

lemma history_ok_fresh: "history_ok (LRUKReplacer num_frames k)"
  by (simp add: history_ok_def LRUKReplacer_def stamps_def)

lemma unat_size_max: "unat (- 1 :: size_t) = 2 ^ 64 - 1"
  by (simp only: unsigned_minus_1_eq_mask mask_eq_exp_minus_1) simp

lemma reachable_replacer_ok:
  assumes "length ops < 2 ^ 64 - 1"
  shows "store_ok (run_ops (LRUKReplacer num_frames k) ops)"
    and "history_ok (run_ops (LRUKReplacer num_frames k) ops)"
proof -
  show "store_ok (run_ops (LRUKReplacer num_frames k) ops)"
    by (rule store_ok_run_ops [OF store_ok_fresh])
  have "unat (current_timestamp (LRUKReplacer num_frames k)) + length ops < unat (- 1 :: size_t)"
  proof -
    have "current_timestamp (LRUKReplacer num_frames k) = 0" by (simp add: LRUKReplacer_def)
    then have "unat (current_timestamp (LRUKReplacer num_frames k)) = 0" by simp
    with assms show ?thesis by (simp only: unat_size_max)
  qed
  from history_ok_run_ops [OF history_ok_fresh this]
  show "history_ok (run_ops (LRUKReplacer num_frames k) ops)" by simp
qed

text \<open>In such a state no call runs into the undefined behaviour of an empty deque.\<close>

lemma history_ok_no_empty_deque:
  assumes "history_ok s"
  shows "fst (RecordAccess s fid) \<noteq> Inl EmptyDeque" and "fst (Evict s) \<noteq> Inl EmptyDeque"
proof -
  show "fst (Evict s) \<noteq> Inl EmptyDeque"
    using evict_candidates_ok [OF assms] by (simp add: Evict_def Let_def)
  show "fst (RecordAccess s fid) \<noteq> Inl EmptyDeque"
  proof (cases "map_of (node_store s) fid")
    case None
    then show ?thesis by (simp add: RecordAccess_def)
  next
    case (Some node)
    from history_ok_node [OF assms map_of_SomeD [OF Some]] have "history node \<noteq> []"
      by (simp add: node_ok_def)
    with Some show ?thesis by (auto simp: RecordAccess_def split: list.splits)
  qed
qed

section \<open>The buffer pool scenarios, evaluated\<close>

lemmas eval_defs = NewPage_def bpm_init_def AllocateFrame_def frame_at_def set_frame_def
  record_and_pin_def RecordAccess_def SetEvictable_def push_timestamp_def default_node_def
  LRUKReplacer_def empty_page_def ResetMemory_def INVALID_PAGE_ID_def Let_def word_le_nat_alt
  UnpinPage_def caller_writes_def

lemma bpm_init_1_eq:
  "bpm_init 1 2 =
     \<lparr>pool_size = 1,
      pages = [\<lparr>data = replicate BUSTUB_PAGE_SIZE 0, page_id = - 1, pin_count = 0,
                is_dirty = False, readers = 0, writer = False\<rparr>],
      replacer = \<lparr>node_store = [], current_timestamp = 0, curr_size = 0, replacer_size = 1, lru_k = 2\<rparr>,
      page_table = [], free_list = [0], next_page_id = 0, disk = []\<rparr>"
  by (simp add: eval_defs)

lemma one_pinned_eq:
  "one_pinned =
     \<lparr>pool_size = 1,
      pages = [\<lparr>data = replicate BUSTUB_PAGE_SIZE 0, page_id = 0, pin_count = 1,
                is_dirty = False, readers = 0, writer = False\<rparr>],
      replacer = \<lparr>node_store = [(0, \<lparr>history = [0], is_evictable = False\<rparr>)],
                  current_timestamp = 1, curr_size = 0, replacer_size = 1, lru_k = 2\<rparr>,
      page_table = [(0, 0)], free_list = [], next_page_id = 1, disk = []\<rparr>"
  by (simp add: one_pinned_def bpm_init_1_eq eval_defs)

lemma one_dirty_eq:
  "one_dirty =
     \<lparr>pool_size = 1,
      pages = [\<lparr>data = [42], page_id = 0, pin_count = 0,
                is_dirty = True, readers = 0, writer = False\<rparr>],
      replacer = \<lparr>node_store = [(0, \<lparr>history = [0], is_evictable = True\<rparr>)],
                  current_timestamp = 1, curr_size = 1, replacer_size = 1, lru_k = 2\<rparr>,
      page_table = [(0, 0)], free_list = [], next_page_id = 1, disk = []\<rparr>"
  by (simp add: one_dirty_def one_pinned_eq eval_defs)

section \<open>Buffer pool manager\<close>

lemma frame_at_other_fields [simp]:
  "frame_at (s\<lparr>replacer := r\<rparr>) fid = frame_at s fid"
  "frame_at (s\<lparr>page_table := pt\<rparr>) fid = frame_at s fid"
  "frame_at (s\<lparr>free_list := fl\<rparr>) fid = frame_at s fid"
  "frame_at (s\<lparr>disk := d\<rparr>) fid = frame_at s fid"
  "frame_at (s\<lparr>next_page_id := n\<rparr>) fid = frame_at s fid"
  by (simp_all add: frame_at_def)

lemma replacer_set_frame [simp]: "replacer (set_frame s fid pg) = replacer s"
  and page_table_set_frame [simp]: "page_table (set_frame s fid pg) = page_table s"
  and free_list_set_frame [simp]: "free_list (set_frame s fid pg) = free_list s"
  and disk_set_frame [simp]: "disk (set_frame s fid pg) = disk s"
  by (simp_all add: set_frame_def)

lemma frame_at_set_frame:
  "frame_at s fid = Some pg \<Longrightarrow> frame_at (set_frame s fid pg') fid = Some pg'"
  by (auto simp: frame_at_def set_frame_def split: if_splits)

text \<open>
  C1. The constructor does not return: for every pool size and every k it ends with
  \<open>NotImplementedException\<close>, thrown by its first statement, before the frame array, the
  replacer and the free list are set up.
\<close>

theorem constructor_throws:
  "BufferPoolManager pool_sz replacer_k = Inl NotImplementedException"
  by (simp add: BufferPoolManager_def)

lemma FetchPage_exhausted:
  "FetchPage one_pinned 1 = (Inr None, one_pinned)"
  by (simp add: one_pinned_eq FetchPage_def AllocateFrame_def Evict_def sort_by_def INVALID_PAGE_ID_def)

text \<open>
  C9. With the only frame pinned, \<open>FetchPage\<close> of a page that is not resident returns
  \<open>nullptr\<close>, and \<open>FetchPageRead\<close> and \<open>FetchPageWrite\<close> then call \<open>RLatch\<close> and
  \<open>WLatch\<close> through it: a null dereference instead of a guard around the absent handle.
\<close>

theorem fetch_page_guard_null_dereference:
  "FetchPage one_pinned 1 = (Inr None, one_pinned) \<and>
   FetchPageRead one_pinned 1 = (Inl NullDereference, one_pinned) \<and>
   FetchPageWrite one_pinned 1 = (Inl NullDereference, one_pinned)"
  by (simp add: FetchPage_exhausted FetchPageRead_def FetchPageWrite_def)

lemma read_disk_last: "read_disk (writes @ [(pid, d)]) pid = d"
  by (simp add: read_disk_def)

lemma disk_record_and_pin: "disk (snd (record_and_pin s fid)) = disk s"
  by (auto simp: record_and_pin_def split: prod.splits sum.splits)

lemma disk_record_and_pinD: "record_and_pin s fid = (res, s') \<Longrightarrow> disk s' = disk s"
  using disk_record_and_pin [of s fid] by simp

lemma disk_NewPage: "disk (snd (NewPage s)) = disk (snd (AllocateFrame s))"
proof (cases "AllocateFrame s")
  case (Pair res s1)
  show ?thesis
  proof (cases res)
    case (Inl e)
    with Pair show ?thesis by (simp add: NewPage_def)
  next
    case (Inr fid)
    show ?thesis
    proof (cases "fid = INVALID_PAGE_ID \<or> frame_at (s1\<lparr>next_page_id := next_page_id s1 + 1\<rparr>) fid = None")
      case True
      with Pair Inr show ?thesis by (auto simp: NewPage_def Let_def)
    next
      case False
      then obtain pg where pg: "frame_at (s1\<lparr>next_page_id := next_page_id s1 + 1\<rparr>) fid = Some pg"
        and v: "fid \<noteq> INVALID_PAGE_ID" by auto
      let ?s3 = "set_frame (s1\<lparr>next_page_id := next_page_id s1 + 1\<rparr>) fid
                   ((ResetMemory pg)\<lparr>page_id := next_page_id s1, pin_count := 1, is_dirty := False\<rparr>)"
      from Pair Inr pg v show ?thesis
        by (auto simp: NewPage_def Let_def split: prod.splits sum.splits dest!: disk_record_and_pinD)
    qed
  qed
qed

lemma disk_ReadFrame: "disk (snd (ReadFrame s fid pid)) = disk s"
  by (auto simp: ReadFrame_def split: option.splits)

lemma disk_FetchPage_miss:
  assumes "map_of (page_table s) pid = None"
  shows "disk (snd (FetchPage s pid)) = disk (snd (AllocateFrame s))"
proof (cases "AllocateFrame s")
  case (Pair res s1)
  show ?thesis
  proof (cases res)
    case (Inl e)
    with Pair assms show ?thesis by (simp add: FetchPage_def)
  next
    case (Inr fid)
    show ?thesis
    proof (cases "fid = INVALID_PAGE_ID")
      case True
      with Pair Inr assms show ?thesis by (simp add: FetchPage_def)
    next
      case False
      obtain res2 s2 where rf: "ReadFrame s1 fid pid = (res2, s2)" by (cases "ReadFrame s1 fid pid")
      from disk_ReadFrame [of s1 fid pid] rf have d2: "disk s2 = disk s1" by simp
      from Pair Inr assms False rf d2 show ?thesis
        by (auto simp: FetchPage_def split: prod.splits sum.splits option.splits
            dest!: disk_record_and_pinD)
    qed
  qed
qed

text \<open>
  C3. \<open>AllocateFrame\<close>: when the free list is not empty its front is popped and returned
  and nothing else changes (no eviction, no write, page table as before). When the free
  list is empty and the replacer evicts a frame of the pool, that frame is returned, its
  buffer is written to stable storage under its page id if and only if it was dirty, the
  page id is erased from the page table, and the frame itself is still untouched on
  return: the write precedes any reuse, and stable storage holds the frame's bytes, also
  after \<open>NewPage\<close> or a \<open>FetchPage\<close> miss has reused the frame.
\<close>

theorem allocate_frame_protocol:
  "(\<forall>front rest. free_list s = front # rest \<longrightarrow>
      AllocateFrame s = (Inr front, s\<lparr>free_list := rest\<rparr>)) \<and>
   (\<forall>fid r pg. free_list s = [] \<and> Evict (replacer s) = (Inr (Some fid), r) \<and> frame_at s fid = Some pg \<longrightarrow>
      AllocateFrame s =
        (Inr fid,
         s\<lparr>replacer := r,
           disk := (if is_dirty pg then disk s @ [(page_id pg, data pg)] else disk s),
           page_table := AList.delete (page_id pg) (page_table s)\<rparr>) \<and>
      map_of (page_table (snd (AllocateFrame s))) (page_id pg) = None \<and>
      frame_at (snd (AllocateFrame s)) fid = Some pg \<and>
      (is_dirty pg \<longrightarrow>
         read_disk (disk (snd (AllocateFrame s))) (page_id pg) = data pg \<and>
         read_disk (disk (snd (NewPage s))) (page_id pg) = data pg \<and>
         (\<forall>pid. map_of (page_table s) pid = None \<longrightarrow>
            read_disk (disk (snd (FetchPage s pid))) (page_id pg) = data pg)))"
proof (intro conjI allI impI)
  fix front rest assume "free_list s = front # rest"
  then show "AllocateFrame s = (Inr front, s\<lparr>free_list := rest\<rparr>)"
    by (simp add: AllocateFrame_def)
next
  fix fid r pg
  assume a: "free_list s = [] \<and> Evict (replacer s) = (Inr (Some fid), r) \<and> frame_at s fid = Some pg"
  then have f: "frame_at (s\<lparr>replacer := r\<rparr>) fid = Some pg" by simp
  from a f show r: "AllocateFrame s =
        (Inr fid,
         s\<lparr>replacer := r,
           disk := (if is_dirty pg then disk s @ [(page_id pg, data pg)] else disk s),
           page_table := AList.delete (page_id pg) (page_table s)\<rparr>)"
    by (simp add: AllocateFrame_def WriteFrame_def Let_def)
  show "map_of (page_table (snd (AllocateFrame s))) (page_id pg) = None"
    by (simp add: r delete_conv')
  from a show "frame_at (snd (AllocateFrame s)) fid = Some pg"
    by (simp add: r)
  assume "is_dirty pg"
  then show w: "read_disk (disk (snd (AllocateFrame s))) (page_id pg) = data pg"
    by (simp add: r read_disk_last)
  then show "read_disk (disk (snd (NewPage s))) (page_id pg) = data pg"
    by (simp only: disk_NewPage)
  show "read_disk (disk (snd (FetchPage s pid))) (page_id pg) = data pg"
    if "map_of (page_table s) pid = None" for pid
    using w by (simp only: disk_FetchPage_miss [OF that])
qed

lemma one_dirty_evict:
  "Evict (replacer one_dirty) =
     (Inr (Some 0),
      \<lparr>node_store = [], current_timestamp = 1, curr_size = 0, replacer_size = 1, lru_k = 2\<rparr>)"
  by (simp add: one_dirty_eq Evict_def sort_by_def erase_node_def AList.delete_eq)

theorem allocate_frame_protocol_witness:
  "free_list (bpm_init 1 2) = [0] \<and>
   AllocateFrame (bpm_init 1 2) = (Inr 0, (bpm_init 1 2)\<lparr>free_list := []\<rparr>) \<and>
   free_list one_dirty = [] \<and>
   fst (Evict (replacer one_dirty)) = Inr (Some 0) \<and>
   frame_at one_dirty 0 =
     Some \<lparr>data = [42], page_id = 0, pin_count = 0, is_dirty = True, readers = 0, writer = False\<rparr> \<and>
   fst (AllocateFrame one_dirty) = Inr 0 \<and>
   disk (snd (AllocateFrame one_dirty)) = [(0, [42])] \<and>
   page_table (snd (AllocateFrame one_dirty)) = [] \<and>
   read_disk (disk (snd (AllocateFrame one_dirty))) 0 = [42] \<and>
   read_disk (disk (snd (NewPage one_dirty))) 0 = [42]"
proof -
  let ?pg = "\<lparr>data = [42], page_id = 0, pin_count = 0, is_dirty = True, readers = 0, writer = False\<rparr>"
  let ?r = "\<lparr>node_store = [], current_timestamp = 1, curr_size = 0, replacer_size = 1, lru_k = 2\<rparr>"
  have fl: "free_list (bpm_init 1 2) = [0]" by (simp add: bpm_init_1_eq)
  have fd: "free_list one_dirty = []" by (simp add: one_dirty_eq)
  have fr: "frame_at one_dirty 0 = Some ?pg" by (simp add: one_dirty_eq frame_at_def)
  have pt: "AList.delete 0 (page_table one_dirty) = []" by (simp add: one_dirty_eq AList.delete_eq)
  have dk: "disk one_dirty = []" by (simp add: one_dirty_eq)
  from allocate_frame_protocol [of "bpm_init 1 2"] fl
  have a1: "AllocateFrame (bpm_init 1 2) = (Inr 0, (bpm_init 1 2)\<lparr>free_list := []\<rparr>)" by blast
  have "free_list one_dirty = [] \<and> Evict (replacer one_dirty) = (Inr (Some 0), ?r) \<and>
        frame_at one_dirty 0 = Some ?pg"
    using fd fr one_dirty_evict by simp
  with allocate_frame_protocol [of one_dirty]
  have a2: "AllocateFrame one_dirty =
        (Inr 0,
         one_dirty\<lparr>replacer := ?r,
           disk := (if is_dirty ?pg then disk one_dirty @ [(page_id ?pg, data ?pg)] else disk one_dirty),
           page_table := AList.delete (page_id ?pg) (page_table one_dirty)\<rparr>)"
    and a3: "is_dirty ?pg \<longrightarrow> read_disk (disk (snd (AllocateFrame one_dirty))) (page_id ?pg) = data ?pg"
    and a4: "is_dirty ?pg \<longrightarrow> read_disk (disk (snd (NewPage one_dirty))) (page_id ?pg) = data ?pg"
    by blast+
  from a2 pt dk have "fst (AllocateFrame one_dirty) = Inr 0"
    and "disk (snd (AllocateFrame one_dirty)) = [(0, [42])]"
    and "page_table (snd (AllocateFrame one_dirty)) = []"
    by simp_all
  moreover from a3 have "read_disk (disk (snd (AllocateFrame one_dirty))) 0 = [42]" by simp
  moreover from a4 have "read_disk (disk (snd (NewPage one_dirty))) 0 = [42]" by simp
  ultimately show ?thesis using fl a1 fd fr one_dirty_evict by simp
qed

lemma SetEvictable_True_tracked:
  assumes "(scast fid :: size_t) < replacer_size r" and "map_of (node_store r) fid = Some node"
  shows "fst (SetEvictable r fid True) = Inr ()"
    and "map_of (node_store (snd (SetEvictable r fid True))) fid = Some (node\<lparr>is_evictable := True\<rparr>)"
  using assms by (auto simp: SetEvictable_def not_le update_conv')

lemma Remove_returns:
  assumes "fst (Remove r fid) = Inr ()"
  shows "map_of (node_store (snd (Remove r fid))) fid = None"
  using assms
  by (auto simp: Remove_def erase_node_tracked map_of_delete_same split: if_splits option.splits)

lemma refetched_eq:
  "refetched =
     \<lparr>pool_size = 1,
      pages = [\<lparr>data = [42], page_id = 0, pin_count = 1,
                is_dirty = True, readers = 0, writer = False\<rparr>],
      replacer = \<lparr>node_store = [(0, \<lparr>history = [0, 1], is_evictable = False\<rparr>)],
                  current_timestamp = 2, curr_size = 0, replacer_size = 1, lru_k = 2\<rparr>,
      page_table = [(0, 0)], free_list = [], next_page_id = 1, disk = []\<rparr>"
  by (simp add: refetched_def one_dirty_eq FetchPage_def eval_defs)

lemma two_pins_eq:
  "two_pins =
     \<lparr>pool_size = 1,
      pages = [\<lparr>data = [42], page_id = 0, pin_count = 2,
                is_dirty = True, readers = 0, writer = False\<rparr>],
      replacer = \<lparr>node_store = [(0, \<lparr>history = [1, 2], is_evictable = False\<rparr>)],
                  current_timestamp = 3, curr_size = 0, replacer_size = 1, lru_k = 2\<rparr>,
      page_table = [(0, 0)], free_list = [], next_page_id = 1, disk = []\<rparr>"
  by (simp add: two_pins_def refetched_eq FetchPage_def eval_defs)

section \<open>The pool invariant\<close>

text \<open>Each replacer call touches the node of its own frame only.\<close>

lemma RecordAccess_local:
  "replacer_size (snd (RecordAccess r f)) = replacer_size r"
  "g \<noteq> f \<Longrightarrow> map_of (node_store (snd (RecordAccess r f))) g = map_of (node_store r) g"
  by (auto simp: RecordAccess_def push_timestamp_def Let_def update_conv' map_add_def
      split: option.splits list.splits)

lemma RecordAccess_returns:
  assumes "RecordAccess r f = (Inr u, r')"
  shows "(scast f :: size_t) < replacer_size r'"
    and "\<exists>node. map_of (node_store r') f = Some node \<and>
           (\<forall>old. map_of (node_store r) f = Some old \<longrightarrow> is_evictable node = is_evictable old)"
  using assms
  by (auto simp: RecordAccess_def push_timestamp_def Let_def update_conv' map_add_def not_le default_node_def
      split: option.splits list.splits if_splits)

lemma RecordAccess_throws:
  assumes "RecordAccess r f = (Inl e, r')"
  shows "r' = r"
  using assms
  by (auto simp: RecordAccess_def split: option.splits list.splits if_splits)

lemma SetEvictable_local:
  "replacer_size (snd (SetEvictable r f b)) = replacer_size r"
  "g \<noteq> f \<Longrightarrow> map_of (node_store (snd (SetEvictable r f b))) g = map_of (node_store r) g"
  by (auto simp: SetEvictable_def update_conv' split: option.splits)

lemma SetEvictable_returns:
  assumes "SetEvictable r f b = (Inr u, r')"
  shows "\<exists>node. map_of (node_store r') f = Some node \<and> is_evictable node = b"
  using assms
  by (auto simp: SetEvictable_def update_conv' split: option.splits if_splits)

lemma SetEvictable_throws:
  assumes "SetEvictable r f b = (Inl e, r')"
  shows "r' = r"
  using assms
  by (auto simp: SetEvictable_def split: option.splits if_splits)

lemma SetEvictable_tracked_returns:
  assumes "(scast f :: size_t) < replacer_size r" and "map_of (node_store r) f = Some node"
  shows "\<exists>r'. SetEvictable r f b = (Inr (), r')"
  using assms by (auto simp: SetEvictable_def not_le)

lemma Remove_local:
  "replacer_size (snd (Remove r f)) = replacer_size r"
  "g \<noteq> f \<Longrightarrow> map_of (node_store (snd (Remove r f))) g = map_of (node_store r) g"
  by (auto simp: Remove_def erase_node_eq_delete split: option.splits)

lemma Remove_evictable_returns:
  assumes "(scast f :: size_t) < replacer_size r" and "map_of (node_store r) f = Some node"
    and "is_evictable node"
  shows "fst (Remove r f) = Inr ()"
  using assms by (auto simp: Remove_def not_le)

lemma Remove_throws:
  assumes "Remove r f = (Inl e, r')"
  shows "r' = r"
  using assms
  by (auto simp: Remove_def split: option.splits if_splits)

lemma Evict_local:
  "replacer_size (snd (Evict r)) = replacer_size r"
  "fst (Evict r) \<noteq> Inr (Some g) \<Longrightarrow> map_of (node_store (snd (Evict r))) g = map_of (node_store r) g"
  by (auto simp: Evict_def Let_def erase_node_eq_delete split: sum.splits)

lemma Evict_victim_untracked:
  "Evict r = (Inr (Some f), r') \<Longrightarrow> map_of (node_store r') f = None"
  by (auto simp: Evict_def Let_def erase_node_eq_delete map_of_delete_same split: sum.splits if_splits)

text \<open>Frame ids that index the same slot of the pool are the same.\<close>

lemma frame_index_inj:
  fixes f g :: frame_id_t
  assumes "0 \<le> sint f" "0 \<le> sint g" "nat (sint f) = nat (sint g)"
  shows "f = g"
proof -
  from assms have "sint f = sint g" by simp
  then show ?thesis by (rule signed_word_eqI)
qed

lemma frame_at_set_frame_other:
  assumes "g \<noteq> f" and "frame_at s f = Some old"
  shows "frame_at (set_frame s f pg) g = frame_at s g"
proof (cases "0 \<le> sint g \<and> nat (sint g) < length (pages s)")
  case False
  then show ?thesis by (auto simp: frame_at_def set_frame_def)
next
  case True
  from assms(2) have f: "0 \<le> sint f" by (auto simp: frame_at_def split: if_splits)
  with True assms(1) frame_index_inj [of g f] have "nat (sint g) \<noteq> nat (sint f)" by blast
  with True show ?thesis by (simp add: frame_at_def set_frame_def)
qed

lemma next_page_id_set_frame [simp]: "next_page_id (set_frame s fid pg) = next_page_id s"
  by (simp add: set_frame_def)

lemma entry_ok_local:
  assumes "frame_at s' (snd e) = frame_at s (snd e)"
    and "replacer_size (replacer s') = replacer_size (replacer s)"
    and "map_of (node_store (replacer s')) (snd e) = map_of (node_store (replacer s)) (snd e)"
  shows "entry_ok s' e = entry_ok s e"
  by (simp add: entry_ok_def assms cong: option.case_cong)

lemma entry_okD:
  assumes "entry_ok s (p, f)"
  obtains pg node where "frame_at s f = Some pg" "page_id pg = p" "0 \<le> pin_count pg"
    "(scast f :: size_t) < replacer_size (replacer s)" "map_of (node_store (replacer s)) f = Some node"
    "pin_count pg = 0 \<Longrightarrow> is_evictable node"
  using assms by (auto simp: entry_ok_def split: option.splits)

lemma entry_okI:
  assumes "frame_at s f = Some pg" "page_id pg = p" "0 \<le> pin_count pg"
    "(scast f :: size_t) < replacer_size (replacer s)" "map_of (node_store (replacer s)) f = Some node"
    "pin_count pg = 0 \<Longrightarrow> is_evictable node"
  shows "entry_ok s (p, f)"
  using assms by (auto simp: entry_ok_def)

lemma bpm_ok_iff:
  "bpm_ok s \<longleftrightarrow>
     distinct (map fst (page_table s)) \<and> (\<forall>e \<in> set (page_table s). entry_ok s e) \<and>
     distinct (free_list s) \<and> (\<forall>f \<in> set (free_list s). f \<notin> snd ` set (page_table s))"
  by (simp add: bpm_ok_def list_all_iff)

lemma bpm_ok_same_frame:
  assumes ok: "bpm_ok s" and e1: "(p, f) \<in> set (page_table s)" and e2: "(q, f) \<in> set (page_table s)"
  shows "p = q"
proof -
  from ok e1 e2 have "entry_ok s (p, f)" "entry_ok s (q, f)" by (auto simp: bpm_ok_iff)
  then show ?thesis by (auto elim!: entry_okD)
qed

lemma set_delete: "set (AList.delete k al) = {e \<in> set al. fst e \<noteq> k}"
  by (auto simp: AList.delete_eq)

lemma set_update_subset: "set (AList.update k v al) \<subseteq> insert (k, v) (set al)"
  by (induction al) (auto split: if_splits)

lemma Evict_throws: "Evict r = (Inl e, r') \<Longrightarrow> r' = r"
  by (auto simp: Evict_def Let_def split: sum.splits if_splits)

lemma Evict_nothing: "Evict r = (Inr None, r') \<Longrightarrow> r' = r"
  by (auto simp: Evict_def Let_def split: sum.splits if_splits)

lemma Evict_some_local:
  assumes "Evict r = (Inr (Some f), r')"
  shows "replacer_size r' = replacer_size r"
    and "g \<noteq> f \<Longrightarrow> map_of (node_store r') g = map_of (node_store r) g"
  using assms Evict_local(1) [of r] Evict_local(2) [of r g] by auto

lemma AllocateFrame_evicts:
  assumes "free_list s = []" and "Evict (replacer s) = (Inr (Some f), r)" and "frame_at s f = Some pg"
  shows "AllocateFrame s =
           (Inr f,
            s\<lparr>replacer := r,
              disk := (if is_dirty pg then disk s @ [(page_id pg, data pg)] else disk s),
              page_table := AList.delete (page_id pg) (page_table s)\<rparr>)"
  using assms by (simp add: AllocateFrame_def WriteFrame_def Let_def)

lemma AllocateFrame_ok:
  assumes ok: "bpm_ok s" and al: "AllocateFrame s = (res, s')"
  shows "bpm_ok s'" and "pages s' = pages s" and "next_page_id s' = next_page_id s"
    and "\<And>f pg. res = Inr f \<Longrightarrow> frame_at s' f = Some pg \<Longrightarrow>
           f \<notin> snd ` set (page_table s') \<and> f \<notin> set (free_list s')"
proof -
  have "bpm_ok s' \<and> pages s' = pages s \<and> next_page_id s' = next_page_id s \<and>
        (\<forall>f pg. res = Inr f \<and> frame_at s' f = Some pg \<longrightarrow>
           f \<notin> snd ` set (page_table s') \<and> f \<notin> set (free_list s'))"
  proof (cases "free_list s")
    case (Cons front rest)
    with al have r: "res = Inr front" "s' = s\<lparr>free_list := rest\<rparr>" by (simp_all add: AllocateFrame_def)
    have "entry_ok (s\<lparr>free_list := rest\<rparr>) e = entry_ok s e" for e
      by (rule entry_ok_local) simp_all
    with ok Cons have "bpm_ok (s\<lparr>free_list := rest\<rparr>)"
      by (simp add: bpm_ok_iff)
    moreover from ok Cons have "front \<notin> set rest" "front \<notin> snd ` set (page_table s)"
      by (auto simp: bpm_ok_iff)
    ultimately show ?thesis using r by simp
  next
    case Nil
    obtain er r where ev: "Evict (replacer s) = (er, r)" by (cases "Evict (replacer s)")
    show ?thesis
    proof (cases er)
      case (Inl e)
      with ev have "r = replacer s" by (auto dest: Evict_throws)
      with al Nil ev Inl ok show ?thesis by (auto simp: AllocateFrame_def)
    next
      case (Inr victim)
      show ?thesis
      proof (cases victim)
        case None
        with ev Inr have "r = replacer s" by (auto dest: Evict_nothing)
        moreover have "frame_at s INVALID_PAGE_ID = None"
          by (simp add: frame_at_def INVALID_PAGE_ID_def)
        ultimately show ?thesis using al Nil ev Inr None ok by (auto simp: AllocateFrame_def)
      next
        case (Some f)
        with ev Inr have evs: "Evict (replacer s) = (Inr (Some f), r)" by simp
        note loc = Evict_some_local [OF evs]
        have others: "entry_ok (s\<lparr>replacer := r\<rparr>) (p, g) = entry_ok s (p, g)" if "g \<noteq> f" for p g
          using loc(1) loc(2) [OF that] by (intro entry_ok_local) simp_all
        show ?thesis
        proof (cases "frame_at s f")
          case None
          with al Nil evs have r': "res = Inl FrameOutOfBounds" "s' = s\<lparr>replacer := r\<rparr>"
            by (simp_all add: AllocateFrame_def)
          have "entry_ok (s\<lparr>replacer := r\<rparr>) e" if "e \<in> set (page_table s)" for e
          proof -
            obtain p g where e: "e = (p, g)" by (cases e)
            from ok that e have eo: "entry_ok s (p, g)" by (auto simp: bpm_ok_iff)
            with None have "g \<noteq> f" by (auto elim!: entry_okD)
            with others eo e show ?thesis by simp
          qed
          with ok have "bpm_ok (s\<lparr>replacer := r\<rparr>)" by (simp add: bpm_ok_iff)
          with r' show ?thesis by simp
        next
          case (Some pg)
          let ?d = "if is_dirty pg then disk s @ [(page_id pg, data pg)] else disk s"
          let ?t = "AList.delete (page_id pg) (page_table s)"
          from al AllocateFrame_evicts [OF Nil evs Some] have r': "res = Inr f"
            "s' = s\<lparr>replacer := r, disk := ?d, page_table := ?t\<rparr>"
            by simp_all
          have nf: "g \<noteq> f" if "(p, g) \<in> set ?t" for p g
          proof
            assume "g = f"
            with that have in_t: "(p, f) \<in> set (page_table s)" and p: "p \<noteq> page_id pg"
              by (simp_all add: set_delete)
            from ok in_t have "entry_ok s (p, f)" by (auto simp: bpm_ok_iff)
            with Some p show False by (auto elim!: entry_okD)
          qed
          have "entry_ok s' e" if "e \<in> set ?t" for e
          proof -
            obtain p g where e: "e = (p, g)" by (cases e)
            from that e have "(p, g) \<in> set (page_table s)" by (simp add: set_delete)
            with ok have eo: "entry_ok s (p, g)" by (auto simp: bpm_ok_iff)
            from nf that e have "g \<noteq> f" by blast
            from others [OF this] eo have "entry_ok (s\<lparr>replacer := r\<rparr>) (p, g)" by simp
            moreover have "entry_ok s' (p, g) = entry_ok (s\<lparr>replacer := r\<rparr>) (p, g)"
              by (rule entry_ok_local) (simp_all add: r')
            ultimately show ?thesis using e by simp
          qed
          moreover from ok have "distinct (map fst ?t)" by (simp add: bpm_ok_iff distinct_delete)
          ultimately have "bpm_ok s'" using Nil by (simp add: bpm_ok_iff r')
          moreover have "f \<notin> snd ` set ?t" using nf by force
          ultimately show ?thesis using r' Nil by simp
        qed
      qed
    qed
  qed
  then show "bpm_ok s'" and "pages s' = pages s" and "next_page_id s' = next_page_id s"
    and "\<And>f pg. res = Inr f \<Longrightarrow> frame_at s' f = Some pg \<Longrightarrow>
           f \<notin> snd ` set (page_table s') \<and> f \<notin> set (free_list s')"
    by blast+
qed

lemma record_and_pin_frame:
  assumes "record_and_pin s f = (res, s')"
  shows "pages s' = pages s" and "page_table s' = page_table s" and "free_list s' = free_list s"
    and "replacer_size (replacer s') = replacer_size (replacer s)"
    and "\<And>g. g \<noteq> f \<Longrightarrow> map_of (node_store (replacer s')) g = map_of (node_store (replacer s)) g"
proof -
  obtain r1 s1 where ra: "RecordAccess (replacer s) f = (r1, s1)" by (cases "RecordAccess (replacer s) f")
  obtain r2 s2 where se: "SetEvictable s1 f False = (r2, s2)" by (cases "SetEvictable s1 f False")
  from ra RecordAccess_local [where r = "replacer s" and f = f] have l1: "replacer_size s1 = replacer_size (replacer s)"
    "\<And>g. g \<noteq> f \<Longrightarrow> map_of (node_store s1) g = map_of (node_store (replacer s)) g" by simp_all
  from se SetEvictable_local [where r = s1 and f = f and b = False] have l2: "replacer_size s2 = replacer_size s1"
    "\<And>g. g \<noteq> f \<Longrightarrow> map_of (node_store s2) g = map_of (node_store s1) g" by simp_all
  from assms ra se have "s' = s\<lparr>replacer := s1\<rparr> \<or> s' = s\<lparr>replacer := s2\<rparr>"
    by (auto simp: record_and_pin_def split: sum.splits)
  with l1 l2 show "pages s' = pages s" and "page_table s' = page_table s" and "free_list s' = free_list s"
    and "replacer_size (replacer s') = replacer_size (replacer s)"
    and "\<And>g. g \<noteq> f \<Longrightarrow> map_of (node_store (replacer s')) g = map_of (node_store (replacer s)) g"
    by auto
qed

lemma record_and_pin_returns:
  assumes "record_and_pin s f = (Inr u, s')"
  shows "(scast f :: size_t) < replacer_size (replacer s')"
    and "\<exists>node. map_of (node_store (replacer s')) f = Some node \<and> \<not> is_evictable node"
proof -
  from assms obtain u1 r1 u2 r2 where ra: "RecordAccess (replacer s) f = (Inr u1, r1)"
    and se: "SetEvictable r1 f False = (Inr u2, r2)" and s': "s' = s\<lparr>replacer := r2\<rparr>"
    by (auto simp: record_and_pin_def split: sum.splits prod.splits)
  from RecordAccess_returns(1) [OF ra] SetEvictable_local(1) [where r = r1 and f = f and b = False] se s'
  show "(scast f :: size_t) < replacer_size (replacer s')" by simp
  from SetEvictable_returns [OF se] s'
  show "\<exists>node. map_of (node_store (replacer s')) f = Some node \<and> \<not> is_evictable node" by simp
qed

lemma frame_at_pages: "pages s' = pages s \<Longrightarrow> frame_at s' f = frame_at s f"
  by (simp add: frame_at_def)

text \<open>
  The common end of \<open>NewPage\<close> and of a \<open>FetchPage\<close> miss: a frame that is neither free nor
  resident gets the page, is recorded and pinned in the replacer, and enters the page table.
\<close>

lemma install_ok:
  assumes ok: "bpm_ok s" and nr: "f \<notin> snd ` set (page_table s)" and nf: "f \<notin> set (free_list s)"
    and fr: "frame_at s f = Some old" and pg: "page_id pg = pid" "pin_count pg = 1"
    and rp: "record_and_pin (set_frame s f pg) f = (res, s3)"
  shows "bpm_ok s3"
    and "\<And>u. res = Inr u \<Longrightarrow> bpm_ok (s3\<lparr>page_table := AList.update pid f (page_table s3)\<rparr>)"
proof -
  let ?s2 = "set_frame s f pg"
  note loc = record_and_pin_frame [OF rp]
  have t3: "page_table s3 = page_table s" and f3: "free_list s3 = free_list s"
    using loc(2,3) by simp_all
  have p3: "pages s3 = pages ?s2" by (rule loc(1))
  have others: "entry_ok s3 (p, g) = entry_ok s (p, g)" if "g \<noteq> f" for p g
  proof (rule entry_ok_local)
    show "frame_at s3 (snd (p, g)) = frame_at s (snd (p, g))"
      using frame_at_pages [OF p3, of g] frame_at_set_frame_other [OF that fr, of pg] by simp
    show "replacer_size (replacer s3) = replacer_size (replacer s)" using loc(4) by simp
    show "map_of (node_store (replacer s3)) (snd (p, g)) = map_of (node_store (replacer s)) (snd (p, g))"
      using loc(5) [OF that] by simp
  qed
  have old_entries: "entry_ok s3 e" if "e \<in> set (page_table s)" for e
  proof -
    obtain p g where e: "e = (p, g)" by (cases e)
    from that e nr have "g \<noteq> f" by force
    from others [OF this] ok that e show ?thesis by (auto simp: bpm_ok_iff)
  qed
  from ok show ok3: "bpm_ok s3" using old_entries by (simp add: bpm_ok_iff t3 f3)
  fix u assume res: "res = Inr u"
  let ?t = "AList.update pid f (page_table s)"
  let ?s4 = "s3\<lparr>page_table := AList.update pid f (page_table s3)\<rparr>"
  from rp res have rp': "record_and_pin ?s2 f = (Inr u, s3)" by simp
  from record_and_pin_returns [OF rp'] obtain node where
    rng: "(scast f :: size_t) < replacer_size (replacer s3)"
    and node: "map_of (node_store (replacer s3)) f = Some node" by blast
  have fr3: "frame_at s3 f = Some pg"
    using frame_at_pages [OF p3, of f] frame_at_set_frame [OF fr, of pg] by simp
  have new: "entry_ok ?s4 (pid, f)"
    using fr3 pg rng node by (intro entry_okI [where pg = pg and node = node]) simp_all
  have "entry_ok ?s4 e" if "e \<in> set ?t" for e
  proof (cases "e = (pid, f)")
    case True
    with new show ?thesis by simp
  next
    case False
    with that set_update_subset [of pid f "page_table s"] have "e \<in> set (page_table s)" by auto
    from old_entries [OF this] have "entry_ok s3 e" .
    moreover have "entry_ok ?s4 e = entry_ok s3 e" by (rule entry_ok_local) simp_all
    ultimately show ?thesis by simp
  qed
  moreover from ok have "distinct (map fst ?t)" by (simp add: bpm_ok_iff distinct_update)
  moreover have "g \<notin> snd ` set ?t" if "g \<in> set (free_list s)" for g
  proof
    assume "g \<in> snd ` set ?t"
    then obtain p where "(p, g) \<in> set ?t" by force
    with set_update_subset [of pid f "page_table s"] have "(p, g) = (pid, f) \<or> (p, g) \<in> set (page_table s)"
      by auto
    with that nf ok show False by (force simp: bpm_ok_iff)
  qed
  ultimately show "bpm_ok ?s4" using ok by (simp add: bpm_ok_iff t3 f3)
qed

lemma bpm_ok_next_page_id: "bpm_ok (s\<lparr>next_page_id := n\<rparr>) = bpm_ok s"
proof -
  have "entry_ok (s\<lparr>next_page_id := n\<rparr>) e = entry_ok s e" for e
    by (rule entry_ok_local) simp_all
  then show ?thesis by (simp add: bpm_ok_iff)
qed

lemma bpm_ok_NewPage:
  assumes ok: "bpm_ok s"
  shows "bpm_ok (snd (NewPage s))"
proof -
  obtain res s1 where al: "AllocateFrame s = (res, s1)" by (cases "AllocateFrame s")
  note a = AllocateFrame_ok [OF ok al]
  show ?thesis
  proof (cases res)
    case (Inl e)
    with al a(1) show ?thesis by (simp add: NewPage_def)
  next
    case (Inr f)
    let ?s2 = "s1\<lparr>next_page_id := next_page_id s1 + 1\<rparr>"
    have ok2: "bpm_ok ?s2" using a(1) by (simp add: bpm_ok_next_page_id)
    show ?thesis
    proof (cases "f = INVALID_PAGE_ID")
      case True
      with al Inr a(1) show ?thesis by (simp add: NewPage_def)
    next
      case False
      show ?thesis
      proof (cases "frame_at s1 f")
        case None
        with al Inr False ok2 show ?thesis by (simp add: NewPage_def Let_def)
      next
        case (Some old)
        let ?pg = "(ResetMemory old)\<lparr>page_id := next_page_id s1, pin_count := 1, is_dirty := False\<rparr>"
        obtain r3 s3 where rp: "record_and_pin (set_frame ?s2 f ?pg) f = (r3, s3)"
          by (cases "record_and_pin (set_frame ?s2 f ?pg) f")
        from a(4) [OF Inr Some] have nr: "f \<notin> snd ` set (page_table ?s2)" and nf: "f \<notin> set (free_list ?s2)"
          by simp_all
        have fr: "frame_at ?s2 f = Some old" using Some by simp
        note i = install_ok [OF ok2 nr nf fr _ _ rp, of "next_page_id s1"]
        show ?thesis
        proof (cases r3)
          case (Inl e)
          with al Inr False Some rp i(1) show ?thesis by (simp add: NewPage_def Let_def)
        next
          case (Inr u)
          from i(2) [OF _ _ Inr] have "bpm_ok (s3\<lparr>page_table := AList.update (next_page_id s1) f (page_table s3)\<rparr>)"
            by simp
          with al \<open>res = Inr f\<close> False Some rp Inr show ?thesis by (simp add: NewPage_def Let_def)
        qed
      qed
    qed
  qed
qed

lemma bpm_ok_set_frame_orphan:
  assumes ok: "bpm_ok s" and nr: "f \<notin> snd ` set (page_table s)" and fr: "frame_at s f = Some old"
  shows "bpm_ok (set_frame s f pg)"
proof -
  have "entry_ok (set_frame s f pg) e" if "e \<in> set (page_table s)" for e
  proof -
    obtain p g where e: "e = (p, g)" by (cases e)
    from that e nr have "g \<noteq> f" by force
    then have "entry_ok (set_frame s f pg) (p, g) = entry_ok s (p, g)"
      using frame_at_set_frame_other [OF _ fr, of g pg] by (intro entry_ok_local) simp_all
    with ok that e show ?thesis by (auto simp: bpm_ok_iff)
  qed
  with ok show ?thesis by (simp add: bpm_ok_iff)
qed

lemma bpm_ok_set_frame_same_meta:
  assumes ok: "bpm_ok s" and fr: "frame_at s f = Some old"
    and same: "page_id pg = page_id old" "pin_count pg = pin_count old"
  shows "bpm_ok (set_frame s f pg)"
proof -
  have "entry_ok (set_frame s f pg) e" if "e \<in> set (page_table s)" for e
  proof -
    obtain p g where e: "e = (p, g)" by (cases e)
    from ok that e have eo: "entry_ok s (p, g)" by (auto simp: bpm_ok_iff)
    show ?thesis
    proof (cases "g = f")
      case False
      then have "entry_ok (set_frame s f pg) (p, g) = entry_ok s (p, g)"
        using frame_at_set_frame_other [OF _ fr, of g pg] by (intro entry_ok_local) simp_all
      with eo e show ?thesis by simp
    next
      case True
      from eo True fr obtain node where "page_id old = p" "0 \<le> pin_count old"
        "(scast f :: size_t) < replacer_size (replacer s)" "map_of (node_store (replacer s)) f = Some node"
        "pin_count old = 0 \<Longrightarrow> is_evictable node"
        by (auto elim!: entry_okD)
      with same frame_at_set_frame [OF fr, of pg] have "entry_ok (set_frame s f pg) (p, f)"
        by (intro entry_okI [where pg = pg and node = node]) simp_all
      with e True show ?thesis by simp
    qed
  qed
  with ok show ?thesis by (simp add: bpm_ok_iff)
qed

lemma record_and_pin_keeps_tracked:
  assumes "record_and_pin s f = (res, s')" and "map_of (node_store (replacer s)) f = Some node"
  shows "\<exists>node'. map_of (node_store (replacer s')) f = Some node'"
proof -
  obtain r1 s1 where ra: "RecordAccess (replacer s) f = (r1, s1)" by (cases "RecordAccess (replacer s) f")
  show ?thesis
  proof (cases r1)
    case (Inl e)
    with ra have "s1 = replacer s" by (auto dest: RecordAccess_throws)
    with assms ra Inl show ?thesis by (auto simp: record_and_pin_def)
  next
    case (Inr u)
    with ra RecordAccess_returns(2) [of "replacer s" f u s1] obtain n1 where
      n1: "map_of (node_store s1) f = Some n1" by auto
    obtain r2 s2 where se: "SetEvictable s1 f False = (r2, s2)" by (cases "SetEvictable s1 f False")
    show ?thesis
    proof (cases r2)
      case (Inl e)
      with se have "s2 = s1" by (auto dest: SetEvictable_throws)
      with assms(1) ra Inr se Inl n1 show ?thesis by (auto simp: record_and_pin_def)
    next
      case r: (Inr v)
      with se SetEvictable_returns [of s1 f False v s2] obtain n2 where
        "map_of (node_store s2) f = Some n2" by auto
      with assms(1) ra Inr se r show ?thesis by (auto simp: record_and_pin_def)
    qed
  qed
qed

lemma map_of_entry: "map_of al k = Some v \<Longrightarrow> (k, v) \<in> set al"
  by (rule map_of_SomeD)

lemma bpm_ok_FetchPage:
  assumes ok: "bpm_ok s"
  shows "bpm_ok (snd (FetchPage s pid))"
proof (cases "map_of (page_table s) pid")
  case (Some f)
  from ok map_of_entry [OF Some] have eo: "entry_ok s (pid, f)" by (auto simp: bpm_ok_iff)
  then obtain pg node where fr: "frame_at s f = Some pg" and pid: "page_id pg = pid"
    and pin: "0 \<le> pin_count pg" and rng: "(scast f :: size_t) < replacer_size (replacer s)"
    and node: "map_of (node_store (replacer s)) f = Some node"
    by (auto elim!: entry_okD)
  let ?pg = "pg\<lparr>pin_count := pin_count pg + 1\<rparr>"
  let ?s1 = "set_frame s f ?pg"
  obtain res s2 where rp: "record_and_pin ?s1 f = (res, s2)" by (cases "record_and_pin ?s1 f")
  note loc = record_and_pin_frame [OF rp]
  have "map_of (node_store (replacer ?s1)) f = Some node" using node by simp
  from record_and_pin_keeps_tracked [OF rp this] obtain node' where
    node': "map_of (node_store (replacer s2)) f = Some node'" by blast
  have fr2: "frame_at s2 f = Some ?pg"
    using frame_at_pages [OF loc(1), of f] frame_at_set_frame [OF fr, of ?pg] by simp
  have "entry_ok s2 e" if "e \<in> set (page_table s)" for e
  proof -
    obtain p g where e: "e = (p, g)" by (cases e)
    from ok that e have eg: "entry_ok s (p, g)" by (auto simp: bpm_ok_iff)
    show ?thesis
    proof (cases "g = f")
      case False
      have "entry_ok s2 (p, g) = entry_ok s (p, g)"
      proof (rule entry_ok_local)
        show "frame_at s2 (snd (p, g)) = frame_at s (snd (p, g))"
          using frame_at_pages [OF loc(1), of g] frame_at_set_frame_other [OF False fr, of ?pg] by simp
        show "replacer_size (replacer s2) = replacer_size (replacer s)" using loc(4) by simp
        show "map_of (node_store (replacer s2)) (snd (p, g)) = map_of (node_store (replacer s)) (snd (p, g))"
          using loc(5) [OF False] by simp
      qed
      with eg e show ?thesis by simp
    next
      case True
      with eg fr have "page_id pg = p" by (auto elim!: entry_okD)
      moreover have "(scast f :: size_t) < replacer_size (replacer s2)" using rng loc(4) by simp
      ultimately have "entry_ok s2 (p, f)"
        using fr2 pin node' by (intro entry_okI [where pg = ?pg and node = node']) simp_all
      with e True show ?thesis by simp
    qed
  qed
  with ok have "bpm_ok s2" by (simp add: bpm_ok_iff loc(2,3))
  with Some fr rp show ?thesis by (auto simp: FetchPage_def split: sum.splits)
next
  case None
  obtain res s1 where al: "AllocateFrame s = (res, s1)" by (cases "AllocateFrame s")
  note a = AllocateFrame_ok [OF ok al]
  show ?thesis
  proof (cases res)
    case (Inl e)
    with None al a(1) show ?thesis by (simp add: FetchPage_def)
  next
    case (Inr f)
    show ?thesis
    proof (cases "f = INVALID_PAGE_ID")
      case True
      with None al Inr a(1) show ?thesis by (simp add: FetchPage_def)
    next
      case False
      show ?thesis
      proof (cases "frame_at s1 f")
        case nf: None
        with None al Inr False a(1) show ?thesis by (simp add: FetchPage_def ReadFrame_def)
      next
        case (Some old)
        let ?rd = "old\<lparr>data := read_disk (disk s1) pid\<rparr>"
        let ?s2 = "set_frame s1 f ?rd"
        let ?pg = "?rd\<lparr>page_id := pid, pin_count := 1, is_dirty := False\<rparr>"
        from a(4) [OF Inr Some] have nr: "f \<notin> snd ` set (page_table s1)" and nfl: "f \<notin> set (free_list s1)"
          by simp_all
        have ok2: "bpm_ok ?s2" by (rule bpm_ok_set_frame_orphan [OF a(1) nr Some])
        have fr2: "frame_at ?s2 f = Some ?rd" by (rule frame_at_set_frame [OF Some])
        have nr2: "f \<notin> snd ` set (page_table ?s2)" and nf2: "f \<notin> set (free_list ?s2)"
          using nr nfl by simp_all
        obtain r3 s3 where rp: "record_and_pin (set_frame ?s2 f ?pg) f = (r3, s3)"
          by (cases "record_and_pin (set_frame ?s2 f ?pg) f")
        note i = install_ok [OF ok2 nr2 nf2 fr2 _ _ rp, of pid]
        have rf: "ReadFrame s1 f pid = (Inr (), ?s2)" using Some by (simp add: ReadFrame_def)
        show ?thesis
        proof (cases r3)
          case (Inl e)
          with None al \<open>res = Inr f\<close> False rf fr2 rp i(1) show ?thesis by (simp add: FetchPage_def)
        next
          case r: (Inr u)
          from i(2) [OF _ _ r] have "bpm_ok (s3\<lparr>page_table := AList.update pid f (page_table s3)\<rparr>)"
            by simp
          with None al \<open>res = Inr f\<close> False rf fr2 rp r show ?thesis by (simp add: FetchPage_def)
        qed
      qed
    qed
  qed
qed

lemma bpm_ok_UnpinPage:
  assumes ok: "bpm_ok s"
  shows "bpm_ok (snd (UnpinPage s pid dirty))"
proof (cases "map_of (page_table s) pid")
  case None
  with ok show ?thesis by (simp add: UnpinPage_def)
next
  case (Some f)
  from ok map_of_entry [OF Some] have eo: "entry_ok s (pid, f)" by (auto simp: bpm_ok_iff)
  then obtain pg node where fr: "frame_at s f = Some pg" and pid: "page_id pg = pid"
    and pin: "0 \<le> pin_count pg" and rng: "(scast f :: size_t) < replacer_size (replacer s)"
    and node: "map_of (node_store (replacer s)) f = Some node"
    by (auto elim!: entry_okD)
  show ?thesis
  proof (cases "pin_count pg \<le> 0")
    case True
    with Some fr ok show ?thesis by (simp add: UnpinPage_def)
  next
    case False
    let ?pg = "pg\<lparr>pin_count := pin_count pg - 1, is_dirty := (is_dirty pg \<or> dirty)\<rparr>"
    let ?s1 = "set_frame s f ?pg"
    obtain r where se: "SetEvictable (replacer s) f True = (Inr (), r)"
      using SetEvictable_tracked_returns [OF rng node] by blast
    let ?r = "if pin_count pg = 1 then r else replacer s"
    let ?s2 = "?s1\<lparr>replacer := ?r\<rparr>"
    have res: "snd (UnpinPage s pid dirty) = ?s2"
      using Some fr False se by (simp add: UnpinPage_def Let_def)
    have rs: "replacer_size ?r = replacer_size (replacer s)"
      using SetEvictable_local(1) [where r = "replacer s" and f = f and b = True] se by simp
    have ro: "map_of (node_store ?r) g = map_of (node_store (replacer s)) g" if "g \<noteq> f" for g
      using SetEvictable_local(2) [OF that, where r = "replacer s" and b = True] se by simp
    have fr2: "frame_at ?s2 f = Some ?pg" using frame_at_set_frame [OF fr, of ?pg] by simp
    obtain node' where node': "map_of (node_store ?r) f = Some node'"
      and ev: "pin_count pg = 1 \<Longrightarrow> is_evictable node'"
      using SetEvictable_returns [OF se] node by (cases "pin_count pg = 1") auto
    have "entry_ok ?s2 e" if "e \<in> set (page_table s)" for e
    proof -
      obtain p g where e: "e = (p, g)" by (cases e)
      from ok that e have eg: "entry_ok s (p, g)" by (auto simp: bpm_ok_iff)
      show ?thesis
      proof (cases "g = f")
        case ne: False
        have "entry_ok ?s2 (p, g) = entry_ok s (p, g)"
        proof (rule entry_ok_local)
          show "frame_at ?s2 (snd (p, g)) = frame_at s (snd (p, g))"
            using frame_at_set_frame_other [OF ne fr, of ?pg] by simp
          show "replacer_size (replacer ?s2) = replacer_size (replacer s)" using rs by simp
          show "map_of (node_store (replacer ?s2)) (snd (p, g)) = map_of (node_store (replacer s)) (snd (p, g))"
            using ro [OF ne] by simp
        qed
        with eg e show ?thesis by simp
      next
        case True
        with eg fr have "page_id pg = p" by (auto elim!: entry_okD)
        moreover have "(scast f :: size_t) < replacer_size (replacer ?s2)" using rng rs by simp
        moreover have "map_of (node_store (replacer ?s2)) f = Some node'" using node' by simp
        ultimately have "entry_ok ?s2 (p, f)"
          using fr2 False ev by (intro entry_okI [where pg = ?pg and node = node']) auto
        with e True show ?thesis by simp
      qed
    qed
    with ok have "bpm_ok ?s2" by (simp add: bpm_ok_iff)
    with res show ?thesis by simp
  qed
qed

lemma bpm_ok_DeletePage:
  assumes ok: "bpm_ok s"
  shows "bpm_ok (snd (DeletePage s pid))"
proof (cases "map_of (page_table s) pid")
  case None
  with ok show ?thesis by (simp add: DeletePage_def)
next
  case (Some f)
  note in_t = map_of_entry [OF Some]
  from ok in_t have eo: "entry_ok s (pid, f)" by (auto simp: bpm_ok_iff)
  then obtain pg node where fr: "frame_at s f = Some pg" and pid: "page_id pg = pid"
    and pin: "0 \<le> pin_count pg" and rng: "(scast f :: size_t) < replacer_size (replacer s)"
    and node: "map_of (node_store (replacer s)) f = Some node"
    and ev: "pin_count pg = 0 \<Longrightarrow> is_evictable node"
    by (auto elim!: entry_okD)
  show ?thesis
  proof (cases "0 < pin_count pg")
    case True
    with Some fr ok show ?thesis by (simp add: DeletePage_def)
  next
    case False
    with pin have "pin_count pg = 0" by simp
    from Remove_evictable_returns [OF rng node ev [OF this]]
    have rm: "fst (Remove (replacer s) f) = Inr ()" .
    let ?r = "snd (Remove (replacer s) f)"
    let ?t = "AList.delete pid (page_table s)"
    let ?pg = "pg\<lparr>data := replicate BUSTUB_PAGE_SIZE 0, page_id := INVALID_PAGE_ID, pin_count := 0,
                  is_dirty := False\<rparr>"
    let ?s1 = "s\<lparr>page_table := ?t, free_list := free_list s @ [f], replacer := ?r\<rparr>"
    let ?s2 = "set_frame ?s1 f ?pg"
    obtain r' where sr: "Remove (replacer s) f = (Inr (), r')"
      using rm by (cases "Remove (replacer s) f") auto
    from Some fr False sr have res: "DeletePage s pid = (Inr True, ?s2)"
      by (simp add: DeletePage_def Let_def ResetMemory_def)
    have nf: "g \<noteq> f" if "(p, g) \<in> set ?t" for p g
    proof
      assume "g = f"
      with that have "(p, f) \<in> set (page_table s)" and "p \<noteq> pid" by (simp_all add: set_delete)
      with bpm_ok_same_frame [OF ok _ in_t] show False by blast
    qed
    have fr1: "frame_at ?s1 f = Some pg" using fr by simp
    have "entry_ok ?s2 e" if "e \<in> set ?t" for e
    proof -
      obtain p g where e: "e = (p, g)" by (cases e)
      from that e have "(p, g) \<in> set (page_table s)" by (simp add: set_delete)
      with ok have eg: "entry_ok s (p, g)" by (auto simp: bpm_ok_iff)
      from nf that e have ne: "g \<noteq> f" by blast
      have "entry_ok ?s2 (p, g) = entry_ok s (p, g)"
      proof (rule entry_ok_local)
        show "frame_at ?s2 (snd (p, g)) = frame_at s (snd (p, g))"
          using frame_at_set_frame_other [OF ne fr1, of ?pg] by simp
        show "replacer_size (replacer ?s2) = replacer_size (replacer s)"
          using Remove_local(1) [where r = "replacer s" and f = f] by simp
        show "map_of (node_store (replacer ?s2)) (snd (p, g)) = map_of (node_store (replacer s)) (snd (p, g))"
          using Remove_local(2) [OF ne, where r = "replacer s"] by simp
      qed
      with eg e show ?thesis by simp
    qed
    moreover from ok have "distinct (map fst ?t)" by (simp add: bpm_ok_iff distinct_delete)
    moreover from ok in_t have "f \<notin> set (free_list s)" by (force simp: bpm_ok_iff)
    moreover have "f \<notin> snd ` set ?t" using nf by force
    moreover have "g \<notin> snd ` set ?t" if "g \<in> set (free_list s)" for g
      using ok that by (force simp: bpm_ok_iff set_delete)
    ultimately have "bpm_ok ?s2" using ok by (simp add: bpm_ok_iff)
    with res show ?thesis by simp
  qed
qed

lemma bpm_ok_latched:
  assumes ok: "bpm_ok s" and fs: "FetchPage s pid = (res, s1)" and ok1: "bpm_ok s1"
  shows "bpm_ok (snd (FetchPageRead s pid))" and "bpm_ok (snd (FetchPageWrite s pid))"
proof -
  have r: "bpm_ok (set_frame s1 f (RLatch pg))" and w: "bpm_ok (set_frame s1 f (WLatch pg))"
    if "frame_at s1 f = Some pg" for f pg
    using bpm_ok_set_frame_same_meta [OF ok1 that] by (simp_all add: RLatch_def WLatch_def)
  from fs ok1 r show "bpm_ok (snd (FetchPageRead s pid))"
    by (auto simp: FetchPageRead_def split: sum.splits option.splits)
  from fs ok1 w show "bpm_ok (snd (FetchPageWrite s pid))"
    by (auto simp: FetchPageWrite_def split: sum.splits option.splits)
qed

lemma bpm_ok_apply_bpm_op:
  assumes "bpm_ok s"
  shows "bpm_ok (apply_bpm_op s op)"
proof -
  have l: "bpm_ok (snd (FetchPageRead s pid))" "bpm_ok (snd (FetchPageWrite s pid))" for pid
    using bpm_ok_latched [OF assms, of pid "fst (FetchPage s pid)" "snd (FetchPage s pid)"]
      bpm_ok_FetchPage [OF assms, of pid] by simp_all
  show ?thesis
    using assms l
    by (cases op) (simp_all add: bpm_ok_NewPage bpm_ok_FetchPage bpm_ok_UnpinPage bpm_ok_DeletePage)
qed

lemma bpm_ok_run_bpm_ops: "bpm_ok s \<Longrightarrow> bpm_ok (run_bpm_ops s ops)"
  unfolding run_bpm_ops_def by (induction ops arbitrary: s) (simp_all add: bpm_ok_apply_bpm_op)

lemma frame_ids_distinct:
  assumes "n \<le> 2 ^ 32"
  shows "distinct (map (\<lambda>i. word_of_nat i :: frame_id_t) [0..<n])"
proof -
  have "inj_on (\<lambda>i. word_of_nat i :: frame_id_t) (set [0..<n])"
  proof (rule inj_onI)
    fix i j assume i: "i \<in> set [0..<n]" and j: "j \<in> set [0..<n]"
      and eq: "(word_of_nat i :: frame_id_t) = word_of_nat j"
    from i j assms have "i < 2 ^ 32" "j < 2 ^ 32" by simp_all
    then have "take_bit 32 i = i" "take_bit 32 j = j" by (simp_all add: take_bit_nat_eq_self)
    with eq show "i = j" by (simp add: word_of_nat_eq_iff)
  qed
  then show ?thesis by (simp add: distinct_map)
qed

lemma bpm_ok_init:
  assumes "unat pool_sz \<le> 2 ^ 32"
  shows "bpm_ok (bpm_init pool_sz replacer_k)"
  using frame_ids_distinct [OF assms] by (simp add: bpm_ok_def bpm_init_def list_all_iff)

lemma reachable_bpm_ok:
  assumes "unat pool_sz \<le> 2 ^ 32"
  shows "bpm_ok (run_bpm_ops (bpm_init pool_sz replacer_k) ops)"
  by (rule bpm_ok_run_bpm_ops [OF bpm_ok_init [OF assms]])

section \<open>UnpinPage and DeletePage\<close>

text \<open>
  C6. In a pool state as the operations leave it (\<open>bpm_ok\<close>, which holds after any
  sequence of calls on a pool set up by the constructor's body, see \<open>reachable_bpm_ok\<close>),
  \<open>UnpinPage\<close> returns false, changing nothing, when the page is not resident or its pin
  count is not positive. Otherwise it returns true, the frame's pin count is one less and
  its \<open>is_dirty\<close> is the old value or the hint; when the pin count was 1 (it reaches 0) the
  replacer is the one \<open>SetEvictable(frame, true)\<close> leaves, with the frame's node evictable,
  and when it was larger the replacer is untouched.
\<close>

theorem unpin_page_cases:
  assumes ok: "bpm_ok s"
  shows "(map_of (page_table s) pid = None \<longrightarrow> UnpinPage s pid dirty = (Inr False, s)) \<and>
   (\<forall>fid. map_of (page_table s) pid = Some fid \<longrightarrow>
      (\<exists>pg node. frame_at s fid = Some pg \<and> map_of (node_store (replacer s)) fid = Some node \<and>
         (pin_count pg \<le> 0 \<longrightarrow> UnpinPage s pid dirty = (Inr False, s)) \<and>
         (0 < pin_count pg \<longrightarrow>
            fst (UnpinPage s pid dirty) = Inr True \<and>
            frame_at (snd (UnpinPage s pid dirty)) fid =
              Some (pg\<lparr>pin_count := pin_count pg - 1, is_dirty := (is_dirty pg \<or> dirty)\<rparr>) \<and>
            (pin_count pg = 1 \<longrightarrow>
               replacer (snd (UnpinPage s pid dirty)) = snd (SetEvictable (replacer s) fid True) \<and>
               map_of (node_store (replacer (snd (UnpinPage s pid dirty)))) fid =
                 Some (node\<lparr>is_evictable := True\<rparr>)) \<and>
            (pin_count pg \<noteq> 1 \<longrightarrow> replacer (snd (UnpinPage s pid dirty)) = replacer s)))) \<and>
   bpm_ok (snd (UnpinPage s pid dirty))"
proof (intro conjI allI impI)
  assume "map_of (page_table s) pid = None"
  then show "UnpinPage s pid dirty = (Inr False, s)" by (simp add: UnpinPage_def)
next
  show "bpm_ok (snd (UnpinPage s pid dirty))" by (rule bpm_ok_UnpinPage [OF ok])
next
  fix fid assume look: "map_of (page_table s) pid = Some fid"
  from ok map_of_entry [OF look] have "entry_ok s (pid, fid)" by (auto simp: bpm_ok_iff)
  then obtain pg node where fr: "frame_at s fid = Some pg"
    and rng: "(scast fid :: size_t) < replacer_size (replacer s)"
    and node: "map_of (node_store (replacer s)) fid = Some node"
    by (auto elim!: entry_okD)
  note se = SetEvictable_True_tracked [OF rng node]
  obtain r' where sr: "SetEvictable (replacer s) fid True = (Inr (), r')"
    using se(1) by (cases "SetEvictable (replacer s) fid True") auto
  let ?pg = "pg\<lparr>pin_count := pin_count pg - 1, is_dirty := (is_dirty pg \<or> dirty)\<rparr>"
  have low: "UnpinPage s pid dirty = (Inr False, s)" if "pin_count pg \<le> 0"
    using look fr that by (simp add: UnpinPage_def)
  have one: "UnpinPage s pid dirty = (Inr True, (set_frame s fid ?pg)\<lparr>replacer := r'\<rparr>)" if "pin_count pg = 1"
    using look fr that sr by (simp add: UnpinPage_def Let_def)
  have more: "UnpinPage s pid dirty = (Inr True, set_frame s fid ?pg)" if "0 < pin_count pg" "pin_count pg \<noteq> 1"
    using look fr that by (simp add: UnpinPage_def Let_def)
  have f': "frame_at (set_frame s fid ?pg) fid = Some ?pg" by (rule frame_at_set_frame [OF fr])
  have pos: "fst (UnpinPage s pid dirty) = Inr True \<and>
            frame_at (snd (UnpinPage s pid dirty)) fid = Some ?pg \<and>
            (pin_count pg = 1 \<longrightarrow>
               replacer (snd (UnpinPage s pid dirty)) = snd (SetEvictable (replacer s) fid True) \<and>
               map_of (node_store (replacer (snd (UnpinPage s pid dirty)))) fid =
                 Some (node\<lparr>is_evictable := True\<rparr>)) \<and>
            (pin_count pg \<noteq> 1 \<longrightarrow> replacer (snd (UnpinPage s pid dirty)) = replacer s)"
    if p: "0 < pin_count pg"
  proof (cases "pin_count pg = 1")
    case True
    from one [OF True] f' se(2) sr True show ?thesis by simp
  next
    case False
    from more [OF p False] f' False show ?thesis by simp
  qed
  from fr node low pos
  show "\<exists>pg node. frame_at s fid = Some pg \<and> map_of (node_store (replacer s)) fid = Some node \<and>
         (pin_count pg \<le> 0 \<longrightarrow> UnpinPage s pid dirty = (Inr False, s)) \<and>
         (0 < pin_count pg \<longrightarrow>
            fst (UnpinPage s pid dirty) = Inr True \<and>
            frame_at (snd (UnpinPage s pid dirty)) fid =
              Some (pg\<lparr>pin_count := pin_count pg - 1, is_dirty := (is_dirty pg \<or> dirty)\<rparr>) \<and>
            (pin_count pg = 1 \<longrightarrow>
               replacer (snd (UnpinPage s pid dirty)) = snd (SetEvictable (replacer s) fid True) \<and>
               map_of (node_store (replacer (snd (UnpinPage s pid dirty)))) fid =
                 Some (node\<lparr>is_evictable := True\<rparr>)) \<and>
            (pin_count pg \<noteq> 1 \<longrightarrow> replacer (snd (UnpinPage s pid dirty)) = replacer s))"
    by blast
qed

text \<open>
  C7. In a pool state as the operations leave it (\<open>bpm_ok\<close>), \<open>DeletePage\<close> returns true,
  changing nothing, when the page is not resident; returns false, changing nothing, when
  it is resident with a positive pin count; and otherwise erases the page-table entry,
  appends the frame to the free list, removes the frame from the replacer, zeroes the
  buffer, resets \<open>page_id\<close>, \<open>pin_count\<close> and \<open>is_dirty\<close>, and returns true.
\<close>

theorem delete_page_cases:
  assumes ok: "bpm_ok s"
  shows "(map_of (page_table s) pid = None \<longrightarrow> DeletePage s pid = (Inr True, s)) \<and>
   (\<forall>fid. map_of (page_table s) pid = Some fid \<longrightarrow>
      (\<exists>pg. frame_at s fid = Some pg \<and>
         (0 < pin_count pg \<longrightarrow> DeletePage s pid = (Inr False, s)) \<and>
         (pin_count pg \<le> 0 \<longrightarrow>
            DeletePage s pid =
              (Inr True,
               set_frame
                 (s\<lparr>page_table := AList.delete pid (page_table s),
                    free_list := free_list s @ [fid],
                    replacer := snd (Remove (replacer s) fid)\<rparr>)
                 fid
                 (pg\<lparr>data := replicate BUSTUB_PAGE_SIZE 0, page_id := INVALID_PAGE_ID, pin_count := 0,
                     is_dirty := False\<rparr>)) \<and>
            map_of (page_table (snd (DeletePage s pid))) pid = None \<and>
            free_list (snd (DeletePage s pid)) = free_list s @ [fid] \<and>
            map_of (node_store (replacer (snd (DeletePage s pid)))) fid = None \<and>
            frame_at (snd (DeletePage s pid)) fid =
              Some (pg\<lparr>data := replicate BUSTUB_PAGE_SIZE 0, page_id := INVALID_PAGE_ID, pin_count := 0,
                       is_dirty := False\<rparr>)))) \<and>
   bpm_ok (snd (DeletePage s pid))"
proof (intro conjI allI impI)
  assume "map_of (page_table s) pid = None"
  then show "DeletePage s pid = (Inr True, s)" by (simp add: DeletePage_def)
next
  show "bpm_ok (snd (DeletePage s pid))" by (rule bpm_ok_DeletePage [OF ok])
next
  fix fid assume look: "map_of (page_table s) pid = Some fid"
  from ok map_of_entry [OF look] have "entry_ok s (pid, fid)" by (auto simp: bpm_ok_iff)
  then obtain pg node where fr: "frame_at s fid = Some pg" and pin: "0 \<le> pin_count pg"
    and rng: "(scast fid :: size_t) < replacer_size (replacer s)"
    and node: "map_of (node_store (replacer s)) fid = Some node"
    and ev: "pin_count pg = 0 \<Longrightarrow> is_evictable node"
    by (auto elim!: entry_okD)
  let ?pg = "pg\<lparr>data := replicate BUSTUB_PAGE_SIZE 0, page_id := INVALID_PAGE_ID, pin_count := 0,
                is_dirty := False\<rparr>"
  let ?s1 = "s\<lparr>page_table := AList.delete pid (page_table s),
                    free_list := free_list s @ [fid],
                    replacer := snd (Remove (replacer s) fid)\<rparr>"
  have pinned: "DeletePage s pid = (Inr False, s)" if "0 < pin_count pg"
    using look fr that by (simp add: DeletePage_def)
  have del: "DeletePage s pid = (Inr True, set_frame ?s1 fid ?pg) \<and>
            map_of (page_table (snd (DeletePage s pid))) pid = None \<and>
            free_list (snd (DeletePage s pid)) = free_list s @ [fid] \<and>
            map_of (node_store (replacer (snd (DeletePage s pid)))) fid = None \<and>
            frame_at (snd (DeletePage s pid)) fid = Some ?pg"
    if le: "pin_count pg \<le> 0"
  proof -
    from le pin have "pin_count pg = 0" by simp
    from Remove_evictable_returns [OF rng node ev [OF this]]
    have rm: "fst (Remove (replacer s) fid) = Inr ()" .
    obtain r' where sr: "Remove (replacer s) fid = (Inr (), r')"
      using rm by (cases "Remove (replacer s) fid") auto
    from look fr le sr have r: "DeletePage s pid = (Inr True, set_frame ?s1 fid ?pg)"
      by (simp add: DeletePage_def Let_def ResetMemory_def)
    have "frame_at ?s1 fid = Some pg" using fr by simp
    from frame_at_set_frame [OF this, of ?pg] Remove_returns [OF rm] r
    show ?thesis by (simp add: delete_conv')
  qed
  from fr pinned del
  show "\<exists>pg. frame_at s fid = Some pg \<and>
         (0 < pin_count pg \<longrightarrow> DeletePage s pid = (Inr False, s)) \<and>
         (pin_count pg \<le> 0 \<longrightarrow>
            DeletePage s pid =
              (Inr True,
               set_frame
                 (s\<lparr>page_table := AList.delete pid (page_table s),
                    free_list := free_list s @ [fid],
                    replacer := snd (Remove (replacer s) fid)\<rparr>)
                 fid
                 (pg\<lparr>data := replicate BUSTUB_PAGE_SIZE 0, page_id := INVALID_PAGE_ID, pin_count := 0,
                     is_dirty := False\<rparr>)) \<and>
            map_of (page_table (snd (DeletePage s pid))) pid = None \<and>
            free_list (snd (DeletePage s pid)) = free_list s @ [fid] \<and>
            map_of (node_store (replacer (snd (DeletePage s pid)))) fid = None \<and>
            frame_at (snd (DeletePage s pid)) fid =
              Some (pg\<lparr>data := replicate BUSTUB_PAGE_SIZE 0, page_id := INVALID_PAGE_ID, pin_count := 0,
                       is_dirty := False\<rparr>))"
    by blast
qed

lemma scenario_states_ok:
  "bpm_ok (bpm_init 1 2)" "bpm_ok one_pinned" "bpm_ok one_dirty" "bpm_ok refetched" "bpm_ok two_pins"
  by (simp_all add: bpm_init_1_eq one_pinned_eq one_dirty_eq refetched_eq two_pins_eq
      bpm_ok_def entry_ok_def frame_at_def)

theorem unpin_page_cases_witness:
  "bpm_ok (bpm_init 1 2) \<and> map_of (page_table (bpm_init 1 2)) 7 = None \<and>
   UnpinPage (bpm_init 1 2) 7 True = (Inr False, bpm_init 1 2) \<and>
   bpm_ok one_dirty \<and> map_of (page_table one_dirty) 0 = Some 0 \<and>
   frame_at one_dirty 0 =
     Some \<lparr>data = [42], page_id = 0, pin_count = 0, is_dirty = True, readers = 0, writer = False\<rparr> \<and>
   UnpinPage one_dirty 0 True = (Inr False, one_dirty) \<and>
   bpm_ok two_pins \<and> map_of (page_table two_pins) 0 = Some 0 \<and>
   frame_at two_pins 0 =
     Some \<lparr>data = [42], page_id = 0, pin_count = 2, is_dirty = True, readers = 0, writer = False\<rparr> \<and>
   fst (UnpinPage two_pins 0 False) = Inr True \<and>
   frame_at (snd (UnpinPage two_pins 0 False)) 0 =
     Some \<lparr>data = [42], page_id = 0, pin_count = 1, is_dirty = True, readers = 0, writer = False\<rparr> \<and>
   replacer (snd (UnpinPage two_pins 0 False)) = replacer two_pins \<and>
   bpm_ok refetched \<and> map_of (page_table refetched) 0 = Some 0 \<and>
   frame_at refetched 0 =
     Some \<lparr>data = [42], page_id = 0, pin_count = 1, is_dirty = True, readers = 0, writer = False\<rparr> \<and>
   fst (UnpinPage refetched 0 False) = Inr True \<and>
   frame_at (snd (UnpinPage refetched 0 False)) 0 =
     Some \<lparr>data = [42], page_id = 0, pin_count = 0, is_dirty = True, readers = 0, writer = False\<rparr> \<and>
   map_of (node_store (replacer (snd (UnpinPage refetched 0 False)))) 0 =
     Some \<lparr>history = [0, 1], is_evictable = True\<rparr> \<and>
   bpm_ok (snd (UnpinPage refetched 0 False))"
proof -
  let ?p0 = "\<lparr>data = [42], page_id = 0, pin_count = 0, is_dirty = True, readers = 0, writer = False\<rparr>"
  let ?p1 = "\<lparr>data = [42], page_id = 0, pin_count = 1, is_dirty = True, readers = 0, writer = False\<rparr>"
  let ?p2 = "\<lparr>data = [42], page_id = 0, pin_count = 2, is_dirty = True, readers = 0, writer = False\<rparr>"
  have i: "map_of (page_table (bpm_init 1 2)) 7 = None" by (simp add: bpm_init_1_eq)
  have ld: "map_of (page_table one_dirty) 0 = Some 0" and fd: "frame_at one_dirty 0 = Some ?p0"
    by (simp_all add: one_dirty_eq frame_at_def)
  have lt: "map_of (page_table two_pins) 0 = Some 0" and ft: "frame_at two_pins 0 = Some ?p2"
    by (simp_all add: two_pins_eq frame_at_def)
  have lr: "map_of (page_table refetched) 0 = Some 0" and fr: "frame_at refetched 0 = Some ?p1"
    and nr: "map_of (node_store (replacer refetched)) 0 = Some \<lparr>history = [0, 1], is_evictable = False\<rparr>"
    by (simp_all add: refetched_eq frame_at_def)
  from unpin_page_cases [OF scenario_states_ok(1), of 7 True] i
  have c1: "UnpinPage (bpm_init 1 2) 7 True = (Inr False, bpm_init 1 2)" by blast
  from unpin_page_cases [OF scenario_states_ok(3), of 0 True] ld fd
  have c2: "UnpinPage one_dirty 0 True = (Inr False, one_dirty)" by auto
  from unpin_page_cases [OF scenario_states_ok(5), of 0 False] lt ft
  have c3: "fst (UnpinPage two_pins 0 False) = Inr True"
    "frame_at (snd (UnpinPage two_pins 0 False)) 0 = Some ?p1"
    "replacer (snd (UnpinPage two_pins 0 False)) = replacer two_pins"
    by auto
  from unpin_page_cases [OF scenario_states_ok(4), of 0 False] lr fr nr
  have c4: "fst (UnpinPage refetched 0 False) = Inr True"
    "frame_at (snd (UnpinPage refetched 0 False)) 0 = Some ?p0"
    "map_of (node_store (replacer (snd (UnpinPage refetched 0 False)))) 0 =
       Some \<lparr>history = [0, 1], is_evictable = True\<rparr>"
    "bpm_ok (snd (UnpinPage refetched 0 False))"
    by auto
  from scenario_states_ok i c1 ld fd c2 lt ft c3 lr fr c4 show ?thesis by simp
qed

theorem delete_page_cases_witness:
  "bpm_ok (bpm_init 1 2) \<and> map_of (page_table (bpm_init 1 2)) 7 = None \<and>
   DeletePage (bpm_init 1 2) 7 = (Inr True, bpm_init 1 2) \<and>
   bpm_ok one_pinned \<and> map_of (page_table one_pinned) 0 = Some 0 \<and>
   frame_at one_pinned 0 =
     Some \<lparr>data = replicate BUSTUB_PAGE_SIZE 0, page_id = 0, pin_count = 1, is_dirty = False,
           readers = 0, writer = False\<rparr> \<and>
   DeletePage one_pinned 0 = (Inr False, one_pinned) \<and>
   bpm_ok one_dirty \<and> map_of (page_table one_dirty) 0 = Some 0 \<and>
   frame_at one_dirty 0 =
     Some \<lparr>data = [42], page_id = 0, pin_count = 0, is_dirty = True, readers = 0, writer = False\<rparr> \<and>
   fst (DeletePage one_dirty 0) = Inr True \<and>
   page_table (snd (DeletePage one_dirty 0)) = [] \<and>
   free_list (snd (DeletePage one_dirty 0)) = [0] \<and>
   node_store (replacer (snd (DeletePage one_dirty 0))) = [] \<and>
   pages (snd (DeletePage one_dirty 0)) =
     [\<lparr>data = replicate BUSTUB_PAGE_SIZE 0, page_id = - 1, pin_count = 0, is_dirty = False,
       readers = 0, writer = False\<rparr>] \<and>
   bpm_ok (snd (DeletePage one_dirty 0))"
proof -
  let ?p0 = "\<lparr>data = [42], page_id = 0, pin_count = 0, is_dirty = True, readers = 0, writer = False\<rparr>"
  let ?q = "\<lparr>data = replicate BUSTUB_PAGE_SIZE 0, page_id = 0, pin_count = 1, is_dirty = False,
           readers = 0, writer = False\<rparr>"
  have i: "map_of (page_table (bpm_init 1 2)) 7 = None" by (simp add: bpm_init_1_eq)
  have lp: "map_of (page_table one_pinned) 0 = Some 0" and fp: "frame_at one_pinned 0 = Some ?q"
    by (simp_all add: one_pinned_eq frame_at_def)
  have ld: "map_of (page_table one_dirty) 0 = Some 0" and fd: "frame_at one_dirty 0 = Some ?p0"
    by (simp_all add: one_dirty_eq frame_at_def)
  have rm: "Remove (replacer one_dirty) 0 =
      (Inr (), \<lparr>node_store = [], current_timestamp = 1, curr_size = 0, replacer_size = 1, lru_k = 2\<rparr>)"
    by (simp add: one_dirty_eq Remove_def erase_node_def AList.delete_eq)
  from delete_page_cases [OF scenario_states_ok(1), of 7] i
  have c1: "DeletePage (bpm_init 1 2) 7 = (Inr True, bpm_init 1 2)" by blast
  from delete_page_cases [OF scenario_states_ok(2), of 0] lp fp
  have c2: "DeletePage one_pinned 0 = (Inr False, one_pinned)" by auto
  from delete_page_cases [OF scenario_states_ok(3), of 0] ld fd
  have c3: "DeletePage one_dirty 0 =
        (Inr True,
         set_frame
           (one_dirty\<lparr>page_table := AList.delete 0 (page_table one_dirty),
              free_list := free_list one_dirty @ [0],
              replacer := snd (Remove (replacer one_dirty) 0)\<rparr>)
           0
           (?p0\<lparr>data := replicate BUSTUB_PAGE_SIZE 0, page_id := INVALID_PAGE_ID, pin_count := 0,
               is_dirty := False\<rparr>))"
    and c3k: "bpm_ok (snd (DeletePage one_dirty 0))"
    by auto
  have e: "fst (DeletePage one_dirty 0) = Inr True"
    "page_table (snd (DeletePage one_dirty 0)) = []"
    "free_list (snd (DeletePage one_dirty 0)) = [0]"
    "node_store (replacer (snd (DeletePage one_dirty 0))) = []"
    "pages (snd (DeletePage one_dirty 0)) =
     [\<lparr>data = replicate BUSTUB_PAGE_SIZE 0, page_id = - 1, pin_count = 0, is_dirty = False,
       readers = 0, writer = False\<rparr>]"
    unfolding c3 rm by (simp_all add: one_dirty_eq set_frame_def AList.delete_eq INVALID_PAGE_ID_def)
  from scenario_states_ok i c1 lp fp c2 ld fd e c3k show ?thesis by simp
qed

end
